theory Spec2Isabelle
  imports Main "HOL-Library.Sublist" "HOL-Library.Multiset"
begin

section \<open>JavaScript values used by \<open>src/tools.ts\<close>\<close>

text \<open>
  A JavaScript string is a sequence of code units; \<open>length\<close>, \<open>substring\<close>,
  \<open>includes\<close>, \<open>startsWith\<close> and \<open>endsWith\<close> all work on code units, so a
  string is modelled as a list of characters and the operations as list operations.
\<close>

text \<open>\<open>s.includes(sub)\<close>: \<open>sub\<close> occurs in \<open>s\<close> as a contiguous block.\<close>

fun js_includes :: "string \<Rightarrow> string \<Rightarrow> bool" where
  "js_includes [] sub = (sub = [])"
| "js_includes (c # cs) sub = (prefix sub (c # cs) \<or> js_includes cs sub)"

definition startsWith :: "string \<Rightarrow> string \<Rightarrow> bool" where
  "startsWith s p = prefix p s"

definition endsWith :: "string \<Rightarrow> string \<Rightarrow> bool" where
  "endsWith s p = suffix p s"

text \<open>\<open>s.slice(a, b)\<close>: a negative index counts from the end of the string, and both
  indices are clamped to the string.\<close>

definition slice :: "string \<Rightarrow> int \<Rightarrow> int \<Rightarrow> string" where
  "slice s a b =
     (let len = int (length s);
          from = (if a < 0 then max (len + a) 0 else min a len);
          to = (if b < 0 then max (len + b) 0 else min b len)
      in take (nat (to - from)) (drop (nat from) s))"

text \<open>\<open>s.substring(a, b)\<close> for non-negative indices: both are clamped to the string and
  swapped when the first is the larger.\<close>

definition substring :: "string \<Rightarrow> nat \<Rightarrow> nat \<Rightarrow> string" where
  "substring s a b =
     (let a' = min a (length s); b' = min b (length s)
      in take (max a' b' - min a' b') (drop (min a' b') s))"

text \<open>\<open>xs.join(sep)\<close> on an array of strings.\<close>

fun join :: "string \<Rightarrow> string list \<Rightarrow> string" where
  "join sep [] = []"
| "join sep [x] = x"
| "join sep (x # y # ys) = x @ sep @ join sep (y # ys)"

text \<open>\<open>Array.from(new Set(xs))\<close>: the distinct elements of \<open>xs\<close>, each at the place of
  its first occurrence.\<close>

definition js_Set :: "'a list \<Rightarrow> 'a list" where
  "js_Set xs = foldl (\<lambda>acc x. if x \<in> set acc then acc else acc @ [x]) [] xs"

text \<open>A number that arithmetic returns: an integer or \<open>NaN\<close>.  The numbers of the program
  are counts of lines and their sums and differences.  \<open>undefined\<close> converts to \<open>NaN\<close>,
  and \<open>NaN\<close> is what a sum or a difference with \<open>NaN\<close> is.\<close>

datatype js_number = Number int | NaN

definition to_number :: "int option \<Rightarrow> js_number" where
  "to_number v = (case v of None \<Rightarrow> NaN | Some n \<Rightarrow> Number n)"

fun js_plus :: "js_number \<Rightarrow> js_number \<Rightarrow> js_number" where
  "js_plus (Number a) (Number b) = Number (a + b)"
| "js_plus _ _ = NaN"

fun js_minus :: "js_number \<Rightarrow> js_number \<Rightarrow> js_number" where
  "js_minus (Number a) (Number b) = Number (a - b)"
| "js_minus _ _ = NaN"

text \<open>\<open>xs.sort(cmp)\<close>: the language requires the sort to be stable, \<open>x\<close> stays before
  \<open>y\<close> unless \<open>cmp(x, y) > 0\<close>, and a comparison that returns \<open>NaN\<close> counts as \<open>0\<close>.
  A stable insertion sort on the comparator gives the one result every conforming sort
  gives for a consistent comparator.  For a comparator that is not consistent the language
  leaves the order to the implementation; the insertion sort is one such order.\<close>

definition sort_compare :: "('a \<Rightarrow> 'a \<Rightarrow> js_number) \<Rightarrow> 'a \<Rightarrow> 'a \<Rightarrow> int" where
  "sort_compare cmp x y = (case cmp x y of NaN \<Rightarrow> 0 | Number v \<Rightarrow> v)"

fun insert_by :: "('a \<Rightarrow> 'a \<Rightarrow> js_number) \<Rightarrow> 'a \<Rightarrow> 'a list \<Rightarrow> 'a list" where
  "insert_by cmp x [] = [x]"
| "insert_by cmp x (y # ys) =
     (if sort_compare cmp x y \<le> 0 then x # y # ys else y # insert_by cmp x ys)"

definition js_sort :: "('a \<Rightarrow> 'a \<Rightarrow> js_number) \<Rightarrow> 'a list \<Rightarrow> 'a list" where
  "js_sort cmp xs = foldr (insert_by cmp) xs []"

text \<open>A thrown value: an \<open>Error\<close> object with its message, or anything else.  The
  \<open>catch\<close> blocks of the program read \<open>error instanceof Error ? error.message : 'Unknown error'\<close>.\<close>

datatype thrown = Error string | NonError

definition error_message :: "thrown \<Rightarrow> string" where
  "error_message e = (case e of Error m \<Rightarrow> m | NonError \<Rightarrow> ''Unknown error'')"

text \<open>The decimal rendering of a non-negative integer in a template literal.\<close>

definition digit_char :: "nat \<Rightarrow> char" where
  "digit_char d = char_of (48 + d)"

fun string_of_nat :: "nat \<Rightarrow> string" where
  "string_of_nat n =
     (if n < 10 then [digit_char n] else string_of_nat (n div 10) @ [digit_char (n mod 10)])"

declare string_of_nat.simps [simp del]

definition string_of_int :: "int \<Rightarrow> string" where
  "string_of_int i = (if i < 0 then CHR ''-'' # string_of_nat (nat (- i)) else string_of_nat (nat i))"

definition string_of_number :: "js_number \<Rightarrow> string" where
  "string_of_number v = (case v of NaN \<Rightarrow> ''NaN'' | Number i \<Rightarrow> string_of_int i)"

definition newline :: string where
  "newline = [CHR 0x0A]"

section \<open>Node's \<open>path.extname\<close> and \<open>path.basename\<close> (POSIX flavour)\<close>

text \<open>
  \<open>src/tools.ts\<close> calls \<open>path.extname\<close> and \<open>path.basename\<close> of Node's standard
  library.  They are modelled after the POSIX implementation, loop for loop: the index
  runs from the last code unit down to 0, \<open>-1\<close> is the "not seen yet" value of the
  index variables, and \<open>break\<close> leaves the loop with the state reached.  The slash is
  the one separator, as on every system but Windows.
\<close>

record extname_state =
  startDot :: int
  startPart :: int
  endIdx :: int
  matchedSlash :: bool
  preDotState :: int

function extname_loop :: "string \<Rightarrow> int \<Rightarrow> extname_state \<Rightarrow> extname_state" where
  "extname_loop path i s =
     (if 0 \<le> i then
        (if path ! nat i = CHR ''/'' then
           (if \<not> matchedSlash s then s\<lparr>startPart := i + 1\<rparr>
            else extname_loop path (i - 1) s)
         else
           (let s1 = (if endIdx s = - 1 then s\<lparr>endIdx := i + 1, matchedSlash := False\<rparr> else s);
                s2 = (if path ! nat i = CHR ''.'' then
                        (if startDot s1 = - 1 then s1\<lparr>startDot := i\<rparr>
                         else if preDotState s1 \<noteq> 1 then s1\<lparr>preDotState := 1\<rparr>
                         else s1)
                      else if startDot s1 \<noteq> - 1 then s1\<lparr>preDotState := - 1\<rparr>
                      else s1)
            in extname_loop path (i - 1) s2))
      else s)"
  by pat_completeness auto
termination
  by (relation "measure (\<lambda>(path, i, s). nat (i + 1))") auto

declare extname_loop.simps [simp del]

definition extname :: "string \<Rightarrow> string" where
  "extname path =
     (let s = extname_loop path (int (length path) - 1)
                \<lparr>startDot = - 1, startPart = 0, endIdx = - 1, matchedSlash = True, preDotState = 0\<rparr>
      in if startDot s = - 1 \<or> endIdx s = - 1 \<or> preDotState s = 0 \<or>
            (preDotState s = 1 \<and> startDot s = endIdx s - 1 \<and> startDot s = startPart s + 1)
         then []
         else slice path (startDot s) (endIdx s))"

record basename_state =
  bn_start :: int
  bn_end :: int
  bn_matchedSlash :: bool
  extIdx :: int
  firstNonSlashEnd :: int

text \<open>The loop of \<open>basename\<close> taken when a non-empty suffix no longer than the path is given.\<close>

function basename_suffix_loop :: "string \<Rightarrow> string \<Rightarrow> int \<Rightarrow> basename_state \<Rightarrow> basename_state" where
  "basename_suffix_loop path sfx i s =
     (if 0 \<le> i then
        (if path ! nat i = CHR ''/'' then
           (if \<not> bn_matchedSlash s then s\<lparr>bn_start := i + 1\<rparr>
            else basename_suffix_loop path sfx (i - 1) s)
         else
           (let s1 = (if firstNonSlashEnd s = - 1
                      then s\<lparr>bn_matchedSlash := False, firstNonSlashEnd := i + 1\<rparr> else s);
                s2 = (if 0 \<le> extIdx s1 then
                        (if path ! nat i = sfx ! nat (extIdx s1) then
                           (if extIdx s1 - 1 = - 1 then s1\<lparr>extIdx := extIdx s1 - 1, bn_end := i\<rparr>
                            else s1\<lparr>extIdx := extIdx s1 - 1\<rparr>)
                         else s1\<lparr>extIdx := - 1, bn_end := firstNonSlashEnd s1\<rparr>)
                      else s1)
            in basename_suffix_loop path sfx (i - 1) s2))
      else s)"
  by pat_completeness auto
termination
  by (relation "measure (\<lambda>(path, sfx, i, s). nat (i + 1))") auto

declare basename_suffix_loop.simps [simp del]

text \<open>The loop of \<open>basename\<close> taken otherwise.\<close>

function basename_loop :: "string \<Rightarrow> int \<Rightarrow> basename_state \<Rightarrow> basename_state" where
  "basename_loop path i s =
     (if 0 \<le> i then
        (if path ! nat i = CHR ''/'' then
           (if \<not> bn_matchedSlash s then s\<lparr>bn_start := i + 1\<rparr>
            else basename_loop path (i - 1) s)
         else if bn_end s = - 1 then
           basename_loop path (i - 1) (s\<lparr>bn_matchedSlash := False, bn_end := i + 1\<rparr>)
         else basename_loop path (i - 1) s)
      else s)"
  by pat_completeness auto
termination
  by (relation "measure (\<lambda>(path, i, s). nat (i + 1))") auto

declare basename_loop.simps [simp del]

definition basename :: "string \<Rightarrow> string \<Rightarrow> string" where
  "basename path sfx =
     (let s0 = \<lparr>bn_start = 0, bn_end = - 1, bn_matchedSlash = True,
                extIdx = int (length sfx) - 1, firstNonSlashEnd = - 1\<rparr>
      in if 0 < length sfx \<and> length sfx \<le> length path then
           (if sfx = path then []
            else
              (let s = basename_suffix_loop path sfx (int (length path) - 1) s0;
                   e = (if bn_start s = bn_end s then firstNonSlashEnd s
                        else if bn_end s = - 1 then int (length path)
                        else bn_end s)
               in slice path (bn_start s) e))
         else
           (let s = basename_loop path (int (length path) - 1) s0
            in if bn_end s = - 1 then [] else slice path (bn_start s) (bn_end s)))"

section \<open>The data of \<open>src/tools.ts\<close>\<close>

definition EXCLUDED_FILES :: "string set" where
  "EXCLUDED_FILES = {''dist'', ''bun.lock'', ''node_modules'', ''.git'', ''coverage''}"

definition maxConcurrentDiffs :: nat where
  "maxConcurrentDiffs = 10"

definition maxCommitMessageLength :: nat where
  "maxCommitMessageLength = 72"

text \<open>The change counts are the integers git reports.  For a binary file the summary of
  \<open>simple-git\<close> has no \<open>changes\<close>, \<open>insertions\<close> or \<open>deletions\<close>: reading them gives
  \<open>undefined\<close>, which is \<open>None\<close> here, and \<open>getFileChangesInDirectory\<close> copies it into the
  \<open>changes\<close> of its \<open>FileDiff\<close>.\<close>

record FileDiff =
  "file" :: string
  "diff" :: string
  "changes" :: "int option"

record GitFileStatus =
  gs_file :: string
  gs_changes :: "int option"
  insertions :: "int option"
  deletions :: "int option"

text \<open>An element of \<open>changes\<close> in \<open>commitMessageSchema\<close>: \<open>changes\<close> and \<open>diff\<close> are
  optional.\<close>

record ChangeParam =
  p_file :: string
  p_changes :: "int option"
  p_diff :: "string option"

text \<open>The values of \<open>z.enum\<close> for \<open>commitType\<close>.\<close>

datatype CommitType = Feat | Fix | Docs | Style | Refactor | Test | Chore

fun commitType_string :: "CommitType \<Rightarrow> string" where
  "commitType_string Feat = ''feat''"
| "commitType_string Fix = ''fix''"
| "commitType_string Docs = ''docs''"
| "commitType_string Style = ''style''"
| "commitType_string Refactor = ''refactor''"
| "commitType_string Test = ''test''"
| "commitType_string Chore = ''chore''"

record CodeReviewResult =
  review_changes :: "FileDiff list"
  summary :: string
  suggestions :: "string list"
  commitMessage :: "string option"
  reportPath :: "string option"

section \<open>The outside world\<close>

text \<open>
  What the program asks of git, the clock and the file system is an input of the model,
  and what it does to the console and the file system is an output, a list of effects in
  program order.  A call that may throw returns the thrown value.  The diffs of one
  batch are fetched concurrently, and each warning is logged when its request fails:
  \<open>diff_settles\<close> is the moment at which the request for the diff of a path settles, and
  the warnings of a batch are logged in the order of these moments.
\<close>

record SimpleGit =
  checkIsRepo :: "thrown + bool"
  diffSummary :: "thrown + GitFileStatus list"
  git_diff :: "string list \<Rightarrow> thrown + string"
  diff_settles :: "string \<Rightarrow> nat"

record world =
  simpleGit :: "string \<Rightarrow> thrown + SimpleGit"
  toISOString :: string
  toLocaleString :: string
  path_join :: "string \<Rightarrow> string \<Rightarrow> string"
  path_dirname :: "string \<Rightarrow> string"
  fs_access :: "string \<Rightarrow> thrown option"
  fs_mkdir :: "string \<Rightarrow> thrown option"
  fs_writeFile :: "string \<Rightarrow> string \<Rightarrow> thrown option"

datatype effect = ConsoleWarn string thrown | Mkdir string | WriteFile string string

text \<open>The \<open>catch\<close> block every exported function ends with: whatever was thrown is thrown
  again as an \<open>Error\<close> whose message has the function's prefix.\<close>

definition rethrow :: "string \<Rightarrow> effect list \<times> (thrown + 'a) \<Rightarrow> effect list \<times> (thrown + 'a)" where
  "rethrow msg r =
     (case r of
        (log, Inl e) \<Rightarrow> (log, Inl (Error (msg @ error_message e)))
      | (log, Inr v) \<Rightarrow> (log, Inr v))"

section \<open>\<open>shouldExcludeFile\<close> and \<open>ensureDirectoryExists\<close>\<close>

definition shouldExcludeFile :: "string \<Rightarrow> string set \<Rightarrow> bool" where
  "shouldExcludeFile filePath additionalExcludes =
     (let allExcludes = EXCLUDED_FILES \<union> additionalExcludes
      in \<exists>exclude \<in> allExcludes. js_includes filePath exclude \<or> startsWith filePath exclude)"

definition ensureDirectoryExists :: "world \<Rightarrow> string \<Rightarrow> effect list \<times> (thrown + unit)" where
  "ensureDirectoryExists w filePath =
     (let dir = path_dirname w filePath in
      case fs_access w dir of
        None \<Rightarrow> ([], Inr ())
      | Some _ \<Rightarrow>
          (case fs_mkdir w dir of
             None \<Rightarrow> ([Mkdir dir], Inr ())
           | Some e \<Rightarrow> ([], Inl e)))"

section \<open>\<open>getFileChangesInDirectory\<close>\<close>

text \<open>The loop that cuts \<open>filesToProcess\<close> into batches, from index \<open>i\<close> on.\<close>

function make_batches :: "nat \<Rightarrow> 'a list \<Rightarrow> 'a list list" where
  "make_batches i filesToProcess =
     (if i < length filesToProcess
      then take maxConcurrentDiffs (drop i filesToProcess)
             # make_batches (i + maxConcurrentDiffs) filesToProcess
      else [])"
  by pat_completeness auto
termination
  by (relation "measure (\<lambda>(i, filesToProcess). length filesToProcess - i)")
     (auto simp: maxConcurrentDiffs_def)

declare make_batches.simps [simp del]

text \<open>One promise of a batch: the diff of one file, or a warning and \<open>null\<close>.\<close>

definition fetch_diff :: "SimpleGit \<Rightarrow> GitFileStatus \<Rightarrow> effect list \<times> FileDiff option" where
  "fetch_diff git f =
     (case git_diff git [''--'', gs_file f] of
        Inr d \<Rightarrow> ([], Some \<lparr>file = gs_file f, diff = d, changes = gs_changes f\<rparr>)
      | Inl e \<Rightarrow> ([ConsoleWarn (''Failed to get diff for file '' @ gs_file f @ '':'') e], None))"

text \<open>One batch: \<open>Promise.all\<close> of its promises, then the results that are not \<open>null\<close>.
  The results are in the order of the batch; the warnings are in the order in which the
  requests settle.\<close>

definition process_batch :: "SimpleGit \<Rightarrow> GitFileStatus list \<Rightarrow> effect list \<times> FileDiff list" where
  "process_batch git batch =
     (let batchResults = map (fetch_diff git) batch;
          validDiffs = concat (map (\<lambda>r. case snd r of None \<Rightarrow> [] | Some d \<Rightarrow> [d]) batchResults);
          settled = sort_key (\<lambda>f. diff_settles git (gs_file f)) batch
      in (concat (map (\<lambda>f. fst (fetch_diff git f)) settled), validDiffs))"

text \<open>The loop over the batches, with the log and \<open>diffs\<close> so far.\<close>

fun process_batches ::
  "SimpleGit \<Rightarrow> GitFileStatus list list \<Rightarrow> effect list \<times> FileDiff list \<Rightarrow> effect list \<times> FileDiff list" where
  "process_batches git [] acc = acc"
| "process_batches git (batch # batches) (log, diffs) =
     (let (log', validDiffs) = process_batch git batch
      in process_batches git batches (log @ log', diffs @ validDiffs))"

definition getFileChangesInDirectory ::
  "world \<Rightarrow> string \<Rightarrow> string list \<Rightarrow> effect list \<times> (thrown + FileDiff list)" where
  "getFileChangesInDirectory w rootDir excludePatterns =
     rethrow ''Failed to get file changes: ''
       (case simpleGit w rootDir of
          Inl e \<Rightarrow> ([], Inl e)
        | Inr git \<Rightarrow>
            (let additionalExcludes = set excludePatterns in
             case checkIsRepo git of
               Inl e \<Rightarrow> ([], Inl e)
             | Inr isRepo \<Rightarrow>
                 if \<not> isRepo
                 then ([], Inl (Error (''Directory '' @ rootDir @ '' is not a git repository'')))
                 else
                   (case diffSummary git of
                      Inl e \<Rightarrow> ([], Inl e)
                    | Inr summary_files \<Rightarrow>
                        (let filesToProcess =
                               filter (\<lambda>f. \<not> shouldExcludeFile (gs_file f) additionalExcludes) summary_files;
                             batches = make_batches 0 filesToProcess;
                             (log, diffs) = process_batches git batches ([], [])
                         in (log, Inr (js_sort (\<lambda>a b. js_minus (to_number (changes b))
                                                                 (to_number (changes a))) diffs))))))"

section \<open>\<open>detectCommitType\<close>\<close>

definition detectCommitType :: "FileDiff list \<Rightarrow> string" where
  "detectCommitType chs =
     (let fileExtensions = map (\<lambda>change. extname (file change)) chs in
      if \<exists>ext \<in> set fileExtensions. \<exists>testExt \<in> set [''.test.'', ''.spec.'']. js_includes ext testExt
        then ''test''
      else if \<exists>change \<in> set chs. js_includes (file change) ''README'' \<or> js_includes (file change) ''docs/''
        then ''docs''
      else if \<exists>change \<in> set chs. js_includes (file change) ''fix'' \<or> js_includes (file change) ''bug''
        then ''fix''
      else ''feat'')"

section \<open>\<open>generateMessageBody\<close> and \<open>generateCommitMessage\<close>\<close>

definition generateMessageBody :: "FileDiff list \<Rightarrow> string" where
  "generateMessageBody chs =
     (let mainFiles = filter (\<lambda>change.
            \<not> js_includes (file change) ''test'' \<and>
            \<not> js_includes (file change) ''spec'' \<and>
            \<not> js_includes (file change) ''README'') chs
      in if length mainFiles = 0 then ''update documentation and tests''
         else
           (let primaryFile = mainFiles ! 0;
                fileName = basename (file primaryFile) (extname (file primaryFile))
            in ''update '' @ fileName @ '' with '' @ string_of_nat (length chs) @ '' file''
                 @ (if length chs > 1 then ''s'' else []) @ '' changed''))"

text \<open>\<open>changes.map(change => ({file, diff: change.diff || "", changes: change.changes || 0}))\<close>\<close>

definition to_FileDiff :: "ChangeParam \<Rightarrow> FileDiff" where
  "to_FileDiff change =
     \<lparr>file = p_file change,
      diff = (case p_diff change of None \<Rightarrow> [] | Some d \<Rightarrow> if d \<noteq> [] then d else []),
      changes = (case p_changes change of None \<Rightarrow> Some 0 | Some n \<Rightarrow> if n \<noteq> 0 then Some n else Some 0)\<rparr>"

text \<open>The value of \<open>commitMessage\<close> before the length check, for a non-empty \<open>changes\<close>.
  The parameter default \<open>commitType = "feat"\<close> is applied first; \<open>a || b\<close> is \<open>a\<close> unless
  \<open>a\<close> is the empty string, and \<open>scope ? x : ''\<close> takes \<open>x\<close> unless \<open>scope\<close> is absent
  or empty.\<close>

definition composedCommitMessage :: "ChangeParam list \<Rightarrow> CommitType option \<Rightarrow> string option \<Rightarrow> string" where
  "composedCommitMessage chs commitTypeArg scope =
     (let commitType = (case commitTypeArg of None \<Rightarrow> ''feat'' | Some t \<Rightarrow> commitType_string t);
          fileDiffs = map to_FileDiff chs;
          detectedType = detectCommitType fileDiffs;
          finalCommitType = (if commitType \<noteq> [] then commitType else detectedType);
          messageBody = generateMessageBody fileDiffs
      in finalCommitType
           @ (case scope of None \<Rightarrow> [] | Some sc \<Rightarrow> if sc \<noteq> [] then ''('' @ sc @ '')'' else [])
           @ '': '' @ messageBody)"

definition generateCommitMessage ::
  "ChangeParam list \<Rightarrow> CommitType option \<Rightarrow> string option \<Rightarrow> effect list \<times> (thrown + string)" where
  "generateCommitMessage chs commitTypeArg scope =
     rethrow ''Failed to generate commit message: ''
       (if length chs = 0 then ([], Inr ''chore: no changes detected'')
        else
          (let commitMessage = composedCommitMessage chs commitTypeArg scope
           in if length commitMessage > maxCommitMessageLength
              then ([], Inr (substring commitMessage 0 (maxCommitMessageLength - 3) @ ''...''))
              else ([], Inr commitMessage)))"

section \<open>\<open>generateReviewSummary\<close> and \<open>generateSuggestions\<close>\<close>

definition generateReviewSummary :: "FileDiff list \<Rightarrow> string" where
  "generateReviewSummary chs =
     (let totalChanges = foldl (\<lambda>sum change. js_plus sum (to_number (changes change))) (Number 0) chs;
          fileTypes = js_Set (map (\<lambda>change. extname (file change)) chs);
          joined = join '', '' fileTypes
      in ''Reviewed '' @ string_of_nat (length chs) @ '' files with '' @ string_of_number totalChanges
           @ '' total changes. File types: '' @ (if joined \<noteq> [] then joined else ''various''))"

definition generateSuggestions :: "FileDiff list \<Rightarrow> string list" where
  "generateSuggestions chs =
     (let suggestions0 = [];
          suggestions1 =
            (if \<exists>change \<in> set chs. endsWith (file change) ''.ts'' \<or> endsWith (file change) ''.tsx''
             then suggestions0 @ [''Consider adding TypeScript type annotations if missing'']
             else suggestions0);
          suggestions2 =
            (if \<exists>change \<in> set chs. js_includes (file change) ''test'' \<or> js_includes (file change) ''spec''
             then suggestions1 @ [''Verify test coverage for the implemented changes'']
             else suggestions1);
          suggestions3 =
            (if length chs > 5
             then suggestions2 @ [''Consider breaking this into smaller, focused commits'']
             else suggestions2);
          suggestions4 =
            (if length suggestions3 = 0
             then suggestions3 @ [''Changes look good. Consider adding comments for complex logic'']
             else suggestions3)
      in suggestions4)"

section \<open>\<open>writeMarkdownReport\<close> and \<open>performCodeReview\<close>\<close>

definition writeMarkdownReport ::
  "world \<Rightarrow> string \<Rightarrow> string option \<Rightarrow> string option \<Rightarrow> effect list \<times> (thrown + string)" where
  "writeMarkdownReport w reviewContent outputPathArg fileNameArg =
     (let outputPath = (case outputPathArg of None \<Rightarrow> ''./code-reviews'' | Some p \<Rightarrow> p);
          fileName = (case fileNameArg of
                        None \<Rightarrow> ''code-review-'' @ takeWhile (\<lambda>c. c \<noteq> CHR ''T'') (toISOString w) @ ''.md''
                      | Some n \<Rightarrow> n)
      in rethrow ''Failed to write markdown report: ''
           (let fullPath = path_join w outputPath fileName in
            case ensureDirectoryExists w fullPath of
              (log, Inl e) \<Rightarrow> (log, Inl e)
            | (log, Inr _) \<Rightarrow>
                (let markdownContent =
                       ''# Code Review Report'' @ newline @ newline @ ''**Date:** '' @ toLocaleString w
                         @ newline @ newline @ ''## Review Summary'' @ newline @ newline @ reviewContent
                         @ newline @ newline @ ''---'' @ newline @ ''*Generated by Code Review Agent*''
                 in case fs_writeFile w fullPath markdownContent of
                      Some e \<Rightarrow> (log, Inl e)
                    | None \<Rightarrow>
                        (log @ [WriteFile fullPath markdownContent],
                         Inr (''Markdown report saved to: '' @ fullPath)))))"

text \<open>The template literal \<open>reportContent\<close> of \<open>performCodeReview\<close>.\<close>

definition reportContent :: "string \<Rightarrow> string list \<Rightarrow> string \<Rightarrow> string" where
  "reportContent summ suggs commitMsg =
     ''## Changes Summary'' @ newline @ summ @ newline @ newline @ ''## Suggestions'' @ newline
       @ join newline (map (\<lambda>s. ''- '' @ s) suggs) @ newline @ newline
       @ ''## Commit Message'' @ newline @ [CHR 0x60] @ commitMsg @ [CHR 0x60]"

definition performCodeReview ::
  "world \<Rightarrow> string \<Rightarrow> string list \<Rightarrow> bool \<Rightarrow> effect list \<times> (thrown + CodeReviewResult)" where
  "performCodeReview w rootDir excludePatterns outputReport =
     rethrow ''Failed to perform code review: ''
       (case getFileChangesInDirectory w rootDir excludePatterns of
          (log1, Inl e) \<Rightarrow> (log1, Inl e)
        | (log1, Inr chs) \<Rightarrow>
            if length chs = 0
            then (log1, Inr \<lparr>review_changes = [], summary = ''No changes detected for review'',
                              suggestions = [''No changes to review''],
                              commitMessage = None, reportPath = None\<rparr>)
            else
              (let commitMessageChanges =
                     map (\<lambda>change. \<lparr>p_file = file change, p_changes = changes change,
                                      p_diff = Some (diff change)\<rparr>) chs
               in case generateCommitMessage commitMessageChanges None None of
                    (log2, Inl e) \<Rightarrow> (log1 @ log2, Inl e)
                  | (log2, Inr commitMsg) \<Rightarrow>
                      (let summ = generateReviewSummary chs;
                           suggs = generateSuggestions chs
                       in if outputReport then
                            (case writeMarkdownReport w (reportContent summ suggs commitMsg) None None of
                               (log3, Inl e) \<Rightarrow> (log1 @ log2 @ log3, Inl e)
                             | (log3, Inr result) \<Rightarrow>
                                 (log1 @ log2 @ log3,
                                  Inr \<lparr>review_changes = chs, summary = summ, suggestions = suggs,
                                       commitMessage = Some commitMsg, reportPath = Some result\<rparr>))
                          else
                            (log1 @ log2,
                             Inr \<lparr>review_changes = chs, summary = summ, suggestions = suggs,
                                  commitMessage = Some commitMsg, reportPath = None\<rparr>))))"

section \<open>What the collection returns, without the batches\<close>

text \<open>The reported files that \<open>shouldExcludeFile\<close> lets through, in the reported order.\<close>

definition kept_files :: "string list \<Rightarrow> GitFileStatus list \<Rightarrow> GitFileStatus list" where
  "kept_files pats files = filter (\<lambda>f. \<not> shouldExcludeFile (gs_file f) (set pats)) files"

text \<open>The entries of the files whose diff git returns, and the warnings of the files whose
  diff git fails on, both in the order of the files.\<close>

definition fetched :: "SimpleGit \<Rightarrow> GitFileStatus list \<Rightarrow> FileDiff list" where
  "fetched git files =
     concat (map (\<lambda>f. case git_diff git [''--'', gs_file f] of
                         Inr d \<Rightarrow> [\<lparr>file = gs_file f, diff = d, changes = gs_changes f\<rparr>]
                       | Inl e \<Rightarrow> []) files)"

definition warned :: "SimpleGit \<Rightarrow> GitFileStatus list \<Rightarrow> effect list" where
  "warned git files =
     concat (map (\<lambda>f. case git_diff git [''--'', gs_file f] of
                         Inr d \<Rightarrow> []
                       | Inl e \<Rightarrow> [ConsoleWarn (''Failed to get diff for file '' @ gs_file f @ '':'') e]) files)"

text \<open>The errors that carry the prefix of the \<open>catch\<close> block of
  \<open>getFileChangesInDirectory\<close>: the wrapping of a failed collection.\<close>

definition collectionFailed :: "thrown \<Rightarrow> bool" where
  "collectionFailed e =
     (case e of Error m \<Rightarrow> startsWith m ''Failed to get file changes: '' | NonError \<Rightarrow> False)"

section \<open>Concrete inputs\<close>

text \<open>The changes of the scenario of the specification: \<open>src/auth.ts\<close> with 40 changes and
  \<open>README.md\<close> with 2.\<close>

definition spec_scenario :: "ChangeParam list" where
  "spec_scenario =
     [\<lparr>p_file = ''src/auth.ts'', p_changes = Some 40, p_diff = None\<rparr>,
      \<lparr>p_file = ''README.md'', p_changes = Some 2, p_diff = None\<rparr>]"

definition scenario_diffs :: "FileDiff list" where
  "scenario_diffs =
     [\<lparr>file = ''src/auth.ts'', diff = [], changes = Some 40\<rparr>,
      \<lparr>file = ''README.md'', diff = [], changes = Some 2\<rparr>]"

definition long_scope :: string where
  "long_scope = ''a-very-long-scope-name-that-goes-on-and-on-and-on-and-on-and-on''"

text \<open>A repository with five changed files, one of them excluded by the built-in set and
  one whose diff git fails on.\<close>

definition demo_files :: "GitFileStatus list" where
  "demo_files =
     [\<lparr>gs_file = ''README.md'', gs_changes = Some 2, insertions = Some 1, deletions = Some 1\<rparr>,
      \<lparr>gs_file = ''src/auth.ts'', gs_changes = Some 40, insertions = Some 30, deletions = Some 10\<rparr>,
      \<lparr>gs_file = ''bun.lock'', gs_changes = Some 400, insertions = Some 300, deletions = Some 100\<rparr>,
      \<lparr>gs_file = ''src/gone.ts'', gs_changes = Some 4, insertions = Some 3, deletions = Some 1\<rparr>,
      \<lparr>gs_file = ''src/util.ts'', gs_changes = Some 2, insertions = Some 2, deletions = Some 0\<rparr>]"

definition demo_git :: SimpleGit where
  "demo_git =
     \<lparr>checkIsRepo = Inr True, diffSummary = Inr demo_files,
      git_diff = (\<lambda>args. if args = [''--'', ''src/gone.ts''] then Inl (Error ''fatal: bad object'')
                         else Inr (''diff of '' @ concat args)),
      diff_settles = (\<lambda>path. length path)\<rparr>"

text \<open>A world with that repository at every directory, no \<open>code-reviews\<close> directory yet,
  and a file system that accepts \<open>mkdir\<close> and \<open>writeFile\<close>.  \<open>path.join\<close> is the
  parameter \<open>j\<close>.\<close>

definition demo_world :: "(string \<Rightarrow> string \<Rightarrow> string) \<Rightarrow> world" where
  "demo_world j =
     \<lparr>simpleGit = (\<lambda>dir. Inr demo_git),
      toISOString = ''2026-11-02T10:00:00.000Z'', toLocaleString = ''11/2/2026, 10:00:00 AM'',
      path_join = j, path_dirname = (\<lambda>p. ''code-reviews''),
      fs_access = (\<lambda>d. Some (Error ''ENOENT'')), fs_mkdir = (\<lambda>d. None),
      fs_writeFile = (\<lambda>p c. None)\<rparr>"

text \<open>What \<open>path.join\<close> returns for \<open>./code-reviews\<close> and a plain file name.\<close>

definition join_code_reviews :: "string \<Rightarrow> string \<Rightarrow> string" where
  "join_code_reviews outputPath fileName = ''code-reviews/'' @ fileName"

text \<open>A repository with two changed text files and two changed binary files, in the
  order of their paths, as git reports them.\<close>

definition binary_files :: "GitFileStatus list" where
  "binary_files =
     [\<lparr>gs_file = ''a.txt'', gs_changes = Some 1, insertions = Some 1, deletions = Some 0\<rparr>,
      \<lparr>gs_file = ''logo.png'', gs_changes = None, insertions = None, deletions = None\<rparr>,
      \<lparr>gs_file = ''photo.png'', gs_changes = None, insertions = None, deletions = None\<rparr>,
      \<lparr>gs_file = ''z.txt'', gs_changes = Some 50, insertions = Some 30, deletions = Some 20\<rparr>]"

definition binary_git :: SimpleGit where
  "binary_git =
     \<lparr>checkIsRepo = Inr True, diffSummary = Inr binary_files,
      git_diff = (\<lambda>args. Inr (''diff of '' @ concat args)),
      diff_settles = (\<lambda>path. 0)\<rparr>"

definition binary_world :: world where
  "binary_world = (demo_world join_code_reviews)\<lparr>simpleGit := (\<lambda>dir. Inr binary_git)\<rparr>"

text \<open>A directory that is not a repository: \<open>checkIsRepo\<close> resolves to \<open>false\<close>.\<close>

definition norepo_git :: SimpleGit where
  "norepo_git =
     \<lparr>checkIsRepo = Inr False,
      diffSummary = Inl (Error ''fatal: not a git repository''),
      git_diff = (\<lambda>args. Inl (Error ''fatal: not a git repository'')),
      diff_settles = (\<lambda>path. 0)\<rparr>"

definition norepo_world :: world where
  "norepo_world = (demo_world join_code_reviews)\<lparr>simpleGit := (\<lambda>dir. Inr norepo_git)\<rparr>"

section \<open>Predicates used in the proofs about \<open>path.extname\<close> and \<open>path.basename\<close>\<close>

text \<open>No dot strictly between the indices \<open>a\<close> and \<open>b\<close> of \<open>path\<close>; no slash from \<open>a\<close>
  up to \<open>b\<close>; slashes only from \<open>a\<close> on.\<close>

definition nodot :: "string \<Rightarrow> int \<Rightarrow> int \<Rightarrow> bool" where
  "nodot path a b \<longleftrightarrow> (\<forall>k. a < k \<and> k < b \<longrightarrow> path ! nat k \<noteq> CHR ''.'')"

definition noslash :: "string \<Rightarrow> int \<Rightarrow> int \<Rightarrow> bool" where
  "noslash path a b \<longleftrightarrow> (\<forall>k. a \<le> k \<and> k < b \<longrightarrow> path ! nat k \<noteq> CHR ''/'')"

definition slashes_from :: "string \<Rightarrow> int \<Rightarrow> bool" where
  "slashes_from path a \<longleftrightarrow> (\<forall>k. a \<le> k \<and> k < int (length path) \<longrightarrow> path ! nat k = CHR ''/'')"

text \<open>The last component of \<open>path\<close> runs from index \<open>b\<close> up to \<open>e\<close>: it is not empty, has
  no slash, is followed by slashes only and starts the path or follows a slash.\<close>

definition component :: "string \<Rightarrow> int \<Rightarrow> int \<Rightarrow> bool" where
  "component path b e \<longleftrightarrow>
     0 \<le> b \<and> b < e \<and> e \<le> int (length path) \<and> noslash path b e \<and> slashes_from path e \<and>
     (b = 0 \<or> path ! nat (b - 1) = CHR ''/'')"

text \<open>The invariant of the loop of \<open>extname\<close> before index \<open>i\<close> is visited, and what holds
  of the state the loop ends with.\<close>

definition ext_inv :: "string \<Rightarrow> int \<Rightarrow> extname_state \<Rightarrow> bool" where
  "ext_inv path i s \<longleftrightarrow>
     startPart s = 0 \<and>
     (endIdx s = - 1 \<longrightarrow> startDot s = - 1 \<and> matchedSlash s \<and> slashes_from path (i + 1)) \<and>
     (endIdx s \<noteq> - 1 \<longrightarrow> \<not> matchedSlash s \<and> i + 1 < endIdx s \<and> endIdx s \<le> int (length path) \<and>
        noslash path (i + 1) (endIdx s) \<and> slashes_from path (endIdx s)) \<and>
     (startDot s = - 1 \<longrightarrow> preDotState s = 0 \<and> nodot path i (endIdx s)) \<and>
     (startDot s \<noteq> - 1 \<longrightarrow> i < startDot s \<and> startDot s < endIdx s \<and>
        path ! nat (startDot s) = CHR ''.'' \<and> nodot path (startDot s) (endIdx s) \<and>
        (preDotState s \<noteq> 0 \<longrightarrow> i + 1 < startDot s))"

definition ext_final :: "string \<Rightarrow> extname_state \<Rightarrow> bool" where
  "ext_final path s \<longleftrightarrow>
     (endIdx s = - 1 \<longrightarrow> startDot s = - 1) \<and>
     (endIdx s \<noteq> - 1 \<longrightarrow> component path (startPart s) (endIdx s)) \<and>
     (startDot s \<noteq> - 1 \<longrightarrow> startPart s \<le> startDot s \<and> startDot s < endIdx s \<and>
        endIdx s \<le> int (length path) \<and>
        path ! nat (startDot s) = CHR ''.'' \<and> nodot path (startDot s) (endIdx s) \<and>
        (preDotState s \<noteq> 0 \<longrightarrow> startPart s < startDot s))"

text \<open>The invariants of the two loops of \<open>basename\<close> on a path whose last component runs
  from \<open>b\<close> up to \<open>e\<close>; in the second, the suffix is the part of the component from
  \<open>sd\<close> on.\<close>

definition base_inv :: "int \<Rightarrow> int \<Rightarrow> int \<Rightarrow> basename_state \<Rightarrow> bool" where
  "base_inv b e i s \<longleftrightarrow>
     bn_start s = 0 \<and>
     (bn_end s = - 1 \<longrightarrow> bn_matchedSlash s \<and> e - 1 \<le> i) \<and>
     (bn_end s \<noteq> - 1 \<longrightarrow> \<not> bn_matchedSlash s \<and> bn_end s = e \<and> b - 1 \<le> i \<and> i < e - 1)"

definition sfx_inv :: "int \<Rightarrow> int \<Rightarrow> int \<Rightarrow> int \<Rightarrow> basename_state \<Rightarrow> bool" where
  "sfx_inv b sd e i s \<longleftrightarrow>
     bn_start s = 0 \<and>
     (firstNonSlashEnd s = - 1 \<longrightarrow>
        bn_matchedSlash s \<and> e - 1 \<le> i \<and> extIdx s = e - sd - 1 \<and> bn_end s = - 1) \<and>
     (firstNonSlashEnd s \<noteq> - 1 \<longrightarrow>
        \<not> bn_matchedSlash s \<and> firstNonSlashEnd s = e \<and> b - 1 \<le> i \<and> i < e - 1 \<and>
        (sd \<le> i \<longrightarrow> extIdx s = i - sd \<and> bn_end s = - 1) \<and>
        (i < sd \<longrightarrow> extIdx s = - 1 \<and> bn_end s = sd))"

section \<open>Strings\<close>

lemma js_includes_iff: "js_includes s sub \<longleftrightarrow> (\<exists>ps ss. s = ps @ sub @ ss)"
proof (induction s)
  case Nil
  then show ?case by auto
next
  case (Cons c cs)
  show ?case
  proof
    assume "js_includes (c # cs) sub"
    then consider "prefix sub (c # cs)" | "js_includes cs sub" by auto
    then show "\<exists>ps ss. c # cs = ps @ sub @ ss"
    proof cases
      case 1
      then obtain ss where "c # cs = sub @ ss" by (auto simp: prefix_def)
      then have "c # cs = [] @ sub @ ss" by simp
      then show ?thesis by blast
    next
      case 2
      then obtain ps ss where "cs = ps @ sub @ ss" using Cons.IH by auto
      then have "c # cs = (c # ps) @ sub @ ss" by simp
      then show ?thesis by blast
    qed
  next
    assume "\<exists>ps ss. c # cs = ps @ sub @ ss"
    then obtain ps ss where e: "c # cs = ps @ sub @ ss" by auto
    show "js_includes (c # cs) sub"
    proof (cases ps)
      case Nil
      with e have "prefix sub (c # cs)" by (simp add: prefix_def)
      then show ?thesis by simp
    next
      case (Cons p ps')
      with e have "cs = ps' @ sub @ ss" by simp
      then show ?thesis using Cons.IH by auto
    qed
  qed
qed

lemma slice_take_drop:
  "0 \<le> a \<Longrightarrow> a \<le> b \<Longrightarrow> b \<le> int (length s) \<Longrightarrow> slice s a b = take (nat b - nat a) (drop (nat a) s)"
  by (simp add: slice_def Let_def min_def nat_diff_distrib)

lemma length_slice:
  "0 \<le> a \<Longrightarrow> a \<le> b \<Longrightarrow> b \<le> int (length s) \<Longrightarrow> length (slice s a b) = nat (b - a)"
  by (simp add: slice_take_drop)

lemma nth_slice:
  assumes "0 \<le> a" "a \<le> b" "b \<le> int (length s)" "0 \<le> k" "k < b - a"
  shows "slice s a b ! nat k = s ! nat (a + k)"
proof -
  have "nat k < nat b - nat a" using assms by linarith
  moreover have "nat a + nat k \<le> length s" using assms by linarith
  moreover have "nat a + nat k = nat (a + k)" using assms by linarith
  ultimately show ?thesis using assms by (simp add: slice_take_drop)
qed

lemma slice_append:
  assumes "0 \<le> a" "a \<le> m" "m \<le> b" "b \<le> int (length s)"
  shows "slice s a m @ slice s m b = slice s a b"
proof -
  have 1: "slice s a m = take (nat m - nat a) (drop (nat a) s)"
    and 2: "slice s m b = take (nat b - nat m) (drop (nat m) s)"
    and 3: "slice s a b = take (nat b - nat a) (drop (nat a) s)"
    using assms by (simp_all add: slice_take_drop)
  have d: "drop (nat m) s = drop (nat m - nat a) (drop (nat a) s)" using assms by simp
  have n: "nat b - nat a = (nat m - nat a) + (nat b - nat m)" using assms by linarith
  show ?thesis unfolding 1 2 3 d n by (simp add: take_add)
qed

lemma substring_0: "substring s 0 n = take n s"
  by (simp add: substring_def Let_def min_def)

section \<open>The loop of \<open>path.extname\<close>\<close>

lemma nodot_empty: "b \<le> a + 1 \<Longrightarrow> nodot path a b"
  by (auto simp: nodot_def)

lemma nodot_extend: "nodot path i b \<Longrightarrow> path ! nat i \<noteq> CHR ''.'' \<Longrightarrow> nodot path (i - 1) b"
  unfolding nodot_def
proof (intro allI impI)
  fix k
  assume a: "\<forall>k. i < k \<and> k < b \<longrightarrow> path ! nat k \<noteq> CHR ''.''" "path ! nat i \<noteq> CHR ''.''"
    "i - 1 < k \<and> k < b"
  then have "k = i \<or> i < k" by linarith
  then show "path ! nat k \<noteq> CHR ''.''" using a by auto
qed

lemma noslash_empty: "b \<le> a \<Longrightarrow> noslash path a b"
  by (auto simp: noslash_def)

lemma noslash_extend: "noslash path (i + 1) b \<Longrightarrow> path ! nat i \<noteq> CHR ''/'' \<Longrightarrow> noslash path i b"
  unfolding noslash_def
proof (intro allI impI)
  fix k
  assume a: "\<forall>k. i + 1 \<le> k \<and> k < b \<longrightarrow> path ! nat k \<noteq> CHR ''/''" "path ! nat i \<noteq> CHR ''/''"
    "i \<le> k \<and> k < b"
  then have "k = i \<or> i + 1 \<le> k" by linarith
  then show "path ! nat k \<noteq> CHR ''/''" using a by auto
qed

lemma slashes_extend: "slashes_from path (i + 1) \<Longrightarrow> path ! nat i = CHR ''/'' \<Longrightarrow> slashes_from path i"
  unfolding slashes_from_def
proof (intro allI impI)
  fix k
  assume a: "\<forall>k. i + 1 \<le> k \<and> k < int (length path) \<longrightarrow> path ! nat k = CHR ''/''" "path ! nat i = CHR ''/''"
    "i \<le> k \<and> k < int (length path)"
  then have "k = i \<or> i + 1 \<le> k" by linarith
  then show "path ! nat k = CHR ''/''" using a by auto
qed

lemma slashes_from_length: "int (length path) \<le> a \<Longrightarrow> slashes_from path a"
  by (auto simp: slashes_from_def)

lemma ext_inv_final: "ext_inv path (- 1) s \<Longrightarrow> ext_final path s"
  by (auto simp: ext_inv_def ext_final_def component_def)

lemma ext_inv_break:
  "ext_inv path i s \<Longrightarrow> 0 \<le> i \<Longrightarrow> path ! nat i = CHR ''/'' \<Longrightarrow> \<not> matchedSlash s \<Longrightarrow>
   ext_final path (s\<lparr>startPart := i + 1\<rparr>)"
  by (auto simp: ext_inv_def ext_final_def component_def)

lemma ext_inv_skip:
  "ext_inv path i s \<Longrightarrow> 0 \<le> i \<Longrightarrow> path ! nat i = CHR ''/'' \<Longrightarrow> matchedSlash s \<Longrightarrow>
   ext_inv path (i - 1) s"
  by (auto simp: ext_inv_def slashes_extend nodot_empty)

lemma ext_inv_step:
  assumes "ext_inv path i s" "0 \<le> i" "i < int (length path)" "path ! nat i \<noteq> CHR ''/''"
  shows "ext_inv path (i - 1)
      (let s1 = (if endIdx s = - 1 then s\<lparr>endIdx := i + 1, matchedSlash := False\<rparr> else s) in
         (if path ! nat i = CHR ''.'' then
            (if startDot s1 = - 1 then s1\<lparr>startDot := i\<rparr>
             else if preDotState s1 \<noteq> 1 then s1\<lparr>preDotState := 1\<rparr>
             else s1)
          else if startDot s1 \<noteq> - 1 then s1\<lparr>preDotState := - 1\<rparr>
          else s1))"
proof (cases "endIdx s = - 1")
  case e: True
  with assms(1) have sd: "startDot s = - 1" and pd: "preDotState s = 0" and sp: "startPart s = 0"
    and sf: "slashes_from path (i + 1)"
    by (auto simp: ext_inv_def)
  show ?thesis
  proof (cases "path ! nat i = CHR ''.''")
    case True
    then show ?thesis using e sd pd sp sf assms(2-4)
      by (simp add: ext_inv_def nodot_empty noslash_extend noslash_empty)
  next
    case False
    have "nodot path i (i + 1)" by (simp add: nodot_empty)
    then have "nodot path (i - 1) (i + 1)" using False by (rule nodot_extend)
    then show ?thesis using False e sd pd sp sf assms(2-4)
      by (simp add: ext_inv_def noslash_extend noslash_empty)
  qed
next
  case e: False
  with assms(1) have ms: "\<not> matchedSlash s" and sp: "startPart s = 0"
    and ie: "i + 1 < endIdx s" "endIdx s \<le> int (length path)"
    and ns: "noslash path (i + 1) (endIdx s)" and sf: "slashes_from path (endIdx s)"
    by (auto simp: ext_inv_def)
  have ns': "noslash path i (endIdx s)" using ns assms(4) by (rule noslash_extend)
  show ?thesis
  proof (cases "startDot s = - 1")
    case sd: True
    with assms(1) have pd: "preDotState s = 0" and nd: "nodot path i (endIdx s)"
      by (auto simp: ext_inv_def)
    show ?thesis
    proof (cases "path ! nat i = CHR ''.''")
      case True
      then show ?thesis using e sd pd sp ms ie ns' sf nd assms(2-4)
        by (simp add: ext_inv_def)
    next
      case False
      then have "nodot path (i - 1) (endIdx s)" using nd by (simp add: nodot_extend)
      then show ?thesis using False e sd pd sp ms ie ns' sf assms(2-4)
        by (simp add: ext_inv_def)
    qed
  next
    case sd: False
    with assms(1) have d: "i < startDot s" "startDot s < endIdx s" "path ! nat (startDot s) = CHR ''.''"
      "nodot path (startDot s) (endIdx s)"
      by (auto simp: ext_inv_def)
    show ?thesis using e sd d sp ms ie ns' sf assms(2-4)
      by (simp add: ext_inv_def)
  qed
qed

lemma extname_loop_final:
  "ext_inv path i s \<Longrightarrow> - 1 \<le> i \<Longrightarrow> i < int (length path) \<Longrightarrow>
   ext_final path (extname_loop path i s)"
proof (induction path i s rule: extname_loop.induct)
  case (1 path i s)
  show ?case
  proof (cases "0 \<le> i")
    case False
    with 1(4) have i: "i = - 1" by simp
    have "extname_loop path i s = s"
      using False by (simp add: extname_loop.simps[of path i s])
    then show ?thesis
      using 1(3) i by (simp add: ext_inv_final)
  next
    case i0: True
    show ?thesis
    proof (cases "path ! nat i = CHR ''/''")
      case sl: True
      show ?thesis
      proof (cases "matchedSlash s")
        case True
        have "ext_inv path (i - 1) s"
          using 1(3) i0 sl True by (rule ext_inv_skip)
        then show ?thesis
          using 1(1)[OF i0 sl] True i0 sl 1(5) by (simp add: extname_loop.simps[of path i s])
      next
        case False
        have "ext_final path (s\<lparr>startPart := i + 1\<rparr>)"
          using 1(3) i0 sl False by (rule ext_inv_break)
        then show ?thesis
          using False i0 sl by (simp add: extname_loop.simps[of path i s])
      qed
    next
      case nsl: False
      show ?thesis
        using 1(2)[OF i0 nsl refl refl] ext_inv_step[OF 1(3) i0 1(5) nsl] i0 nsl 1(5)
        by (simp add: extname_loop.simps[of path i s] Let_def)
    qed
  qed
qed

lemma ext_init_inv:
  "ext_inv path (int (length path) - 1)
     \<lparr>startDot = - 1, startPart = 0, endIdx = - 1, matchedSlash = True, preDotState = 0\<rparr>"
  by (simp add: ext_inv_def nodot_empty slashes_from_length)

section \<open>The extension \<open>path.extname\<close> returns has one dot\<close>

lemma slice_dot:
  assumes "0 \<le> a" "a < b" "b \<le> int (length path)" "path ! nat a = CHR ''.''" "nodot path a b"
  shows "\<exists>r. slice path a b = CHR ''.'' # r \<and> CHR ''.'' \<notin> set r"
proof -
  let ?r = "take (nat b - nat a - 1) (drop (Suc (nat a)) path)"
  have lt: "nat a < length path" using assms by linarith
  have "drop (nat a) path = path ! nat a # drop (Suc (nat a)) path"
    using lt by (simp add: Cons_nth_drop_Suc)
  moreover have "nat b - nat a = Suc (nat b - nat a - 1)" using assms by linarith
  moreover have "slice path a b = take (nat b - nat a) (drop (nat a) path)"
    using assms by (simp add: slice_take_drop)
  ultimately have e: "slice path a b = CHR ''.'' # ?r"
    using assms(4) by simp
  have "CHR ''.'' \<notin> set ?r"
  proof
    assume "CHR ''.'' \<in> set ?r"
    then obtain j where j: "j < length ?r" "?r ! j = CHR ''.''"
      by (auto simp: in_set_conv_nth)
    then have jb: "j < nat b - nat a - 1" by simp
    have "Suc (nat a) + j \<le> length path" using jb assms by linarith
    then have rj: "?r ! j = path ! (Suc (nat a) + j)" using jb by simp
    have "a < int (Suc (nat a) + j) \<and> int (Suc (nat a) + j) < b" using jb assms by linarith
    then have "path ! nat (int (Suc (nat a) + j)) \<noteq> CHR ''.''"
      using assms(5) unfolding nodot_def by blast
    then have "path ! (Suc (nat a) + j) \<noteq> CHR ''.''" unfolding nat_int .
    moreover from rj j(2) have "path ! (Suc (nat a) + j) = CHR ''.''" by simp
    ultimately show False by blast
  qed
  with e show ?thesis by blast
qed

lemma extname_shape:
  "extname path = [] \<or> (\<exists>r. extname path = CHR ''.'' # r \<and> CHR ''.'' \<notin> set r)"
proof -
  let ?s = "extname_loop path (int (length path) - 1)
     \<lparr>startDot = - 1, startPart = 0, endIdx = - 1, matchedSlash = True, preDotState = 0\<rparr>"
  have f: "ext_final path ?s"
    by (rule extname_loop_final[OF ext_init_inv]) simp_all
  show ?thesis
  proof (cases "extname path = []")
    case True
    then show ?thesis by simp
  next
    case False
    then have nd: "startDot ?s \<noteq> - 1" and e: "extname path = slice path (startDot ?s) (endIdx ?s)"
      by (auto simp: extname_def Let_def split: if_splits)
    from f nd have "0 \<le> startDot ?s" "startDot ?s < endIdx ?s" "endIdx ?s \<le> int (length path)"
      "path ! nat (startDot ?s) = CHR ''.''" "nodot path (startDot ?s) (endIdx ?s)"
      by (auto simp: ext_final_def component_def)
    from slice_dot[OF this] e show ?thesis by simp
  qed
qed

lemma two_dots_not_in_extname:
  assumes "sub = a @ CHR ''.'' # b @ CHR ''.'' # c"
  shows "\<not> js_includes (extname path) sub"
proof
  assume "js_includes (extname path) sub"
  then obtain ps ss where e: "extname path = ps @ sub @ ss"
    by (auto simp: js_includes_iff)
  then have ne: "extname path \<noteq> []" using assms by auto
  then obtain r where r: "extname path = CHR ''.'' # r" "CHR ''.'' \<notin> set r"
    using extname_shape[of path] by auto
  have "length (filter (\<lambda>x. x = CHR ''.'') (extname path)) \<ge> 2"
    unfolding e assms by simp
  moreover have "filter (\<lambda>x. x = CHR ''.'') (extname path) = [CHR ''.'']"
    unfolding r(1) using r(2) by (auto simp: filter_empty_conv)
  ultimately show False by simp
qed

lemma extname_no_test_marker:
  "\<not> js_includes (extname p) ''.test.''" "\<not> js_includes (extname p) ''.spec.''"
proof -
  show "\<not> js_includes (extname p) ''.test.''"
    by (rule two_dots_not_in_extname[of _ "[]" "''test''" "[]"]) simp
  show "\<not> js_includes (extname p) ''.spec.''"
    by (rule two_dots_not_in_extname[of _ "[]" "''spec''" "[]"]) simp
qed

section \<open>\<open>path.basename\<close> with the extension of \<open>path.extname\<close>\<close>

text \<open>
  When \<open>extname\<close> returns an extension, it is the end of the last component of the path,
  from a dot that is not the first character of the component.  \<open>basename\<close> with that
  extension returns the component without it, so that base name and extension together
  are the base name \<open>basename\<close> returns when no extension is given.
\<close>

lemma extname_cases:
  "extname p = [] \<or> (\<exists>b sd e. component p b e \<and> b < sd \<and> sd < e \<and> extname p = slice p sd e)"
proof -
  let ?s = "extname_loop p (int (length p) - 1)
     \<lparr>startDot = - 1, startPart = 0, endIdx = - 1, matchedSlash = True, preDotState = 0\<rparr>"
  have f: "ext_final p ?s"
    by (rule extname_loop_final[OF ext_init_inv]) simp_all
  show ?thesis
  proof (cases "extname p = []")
    case True
    then show ?thesis by simp
  next
    case False
    then have nd: "startDot ?s \<noteq> - 1" "endIdx ?s \<noteq> - 1" "preDotState ?s \<noteq> 0"
      and e: "extname p = slice p (startDot ?s) (endIdx ?s)"
      by (auto simp: extname_def Let_def split: if_splits)
    from f nd have "component p (startPart ?s) (endIdx ?s)" "startPart ?s < startDot ?s"
      "startDot ?s < endIdx ?s"
      by (auto simp: ext_final_def)
    with e show ?thesis by blast
  qed
qed

lemma component_in: "component p b e \<Longrightarrow> b \<le> k \<Longrightarrow> k < e \<Longrightarrow> p ! nat k \<noteq> CHR ''/''"
  by (simp add: component_def noslash_def)

lemma component_after:
  "component p b e \<Longrightarrow> e \<le> k \<Longrightarrow> k < int (length p) \<Longrightarrow> p ! nat k = CHR ''/''"
  by (simp add: component_def slashes_from_def)

lemma component_before: "component p b e \<Longrightarrow> 0 < b \<Longrightarrow> p ! nat (b - 1) = CHR ''/''"
  by (auto simp: component_def)

lemma component_bounds: "component p b e \<Longrightarrow> 0 \<le> b \<and> b < e \<and> e \<le> int (length p)"
  by (simp add: component_def)

text \<open>Where a slash or a non-slash can be, seen from inside the loops.\<close>

lemma slash_position:
  assumes "component p b e" "0 \<le> i" "i < int (length p)" "p ! nat i = CHR ''/''" "b - 1 \<le> i"
  shows "i = b - 1 \<or> e \<le> i"
proof (rule ccontr)
  assume "\<not> (i = b - 1 \<or> e \<le> i)"
  then have "b \<le> i" "i < e" using assms(5) by auto
  then show False using component_in[OF assms(1)] assms(4) by blast
qed

lemma nonslash_position:
  assumes "component p b e" "0 \<le> i" "i < int (length p)" "p ! nat i \<noteq> CHR ''/''" "b - 1 \<le> i"
  shows "b \<le> i \<and> i < e"
proof -
  have "i < e" using component_after[OF assms(1), of i] assms(3,4) by force
  moreover have "i \<noteq> b - 1" using component_before[OF assms(1)] assms(2,4) by force
  ultimately show ?thesis using assms(5) by simp
qed

lemma basename_loop_final:
  "component p b e \<Longrightarrow> base_inv b e i s \<Longrightarrow> - 1 \<le> i \<Longrightarrow> i < int (length p) \<Longrightarrow>
   bn_start (basename_loop p i s) = b \<and> bn_end (basename_loop p i s) = e"
proof (induction p i s rule: basename_loop.induct)
  case (1 p i s)
  note c = 1(4) and inv = 1(5) and bd = component_bounds[OF 1(4)]
  show ?case
  proof (cases "0 \<le> i")
    case False
    with 1(6) have i: "i = - 1" by simp
    have "basename_loop p i s = s"
      using False by (simp add: basename_loop.simps[of p i s])
    then show ?thesis using inv i bd by (auto simp: base_inv_def)
  next
    case i0: True
    show ?thesis
    proof (cases "p ! nat i = CHR ''/''")
      case sl: True
      show ?thesis
      proof (cases "bn_matchedSlash s")
        case True
        then have "e - 1 \<le> i" "bn_end s = - 1" using inv by (auto simp: base_inv_def)
        moreover have "i = b - 1 \<or> e \<le> i"
          using c i0 1(7) sl by (rule slash_position) (use bd \<open>e - 1 \<le> i\<close> in simp)
        ultimately have "base_inv b e (i - 1) s" using inv True bd by (auto simp: base_inv_def)
        then show ?thesis
          using 1(1)[OF i0 sl _ c] True i0 sl 1(7) by (simp add: basename_loop.simps[of p i s])
      next
        case False
        then have e: "bn_end s = e" "b - 1 \<le> i" "i < e - 1" using inv by (auto simp: base_inv_def)
        have "i = b - 1 \<or> e \<le> i" using c i0 1(7) sl e(2) by (rule slash_position)
        then have "i + 1 = b" using e by simp
        then show ?thesis
          using False i0 sl e by (simp add: basename_loop.simps[of p i s])
      qed
    next
      case nsl: False
      show ?thesis
      proof (cases "bn_end s = - 1")
        case True
        then have "e - 1 \<le> i" using inv by (auto simp: base_inv_def)
        moreover have "b \<le> i \<and> i < e"
          using c i0 1(7) nsl by (rule nonslash_position) (use bd \<open>e - 1 \<le> i\<close> in simp)
        ultimately have "base_inv b e (i - 1) (s\<lparr>bn_matchedSlash := False, bn_end := i + 1\<rparr>)"
          using inv True bd by (auto simp: base_inv_def)
        then show ?thesis
          using 1(2)[OF i0 nsl True c] True i0 nsl 1(7) by (simp add: basename_loop.simps[of p i s])
      next
        case False
        then have e: "bn_end s = e" "b - 1 \<le> i" "i < e - 1" using inv by (auto simp: base_inv_def)
        have "b \<le> i \<and> i < e" using c i0 1(7) nsl e(2) by (rule nonslash_position)
        then have "base_inv b e (i - 1) s" using inv False by (auto simp: base_inv_def)
        then show ?thesis
          using 1(3)[OF i0 nsl False c] False i0 nsl 1(7) by (simp add: basename_loop.simps[of p i s])
      qed
    qed
  qed
qed

lemma sfx_step:
  assumes c: "component p b e" and sd: "b < sd" "sd < e"
    and sfx: "\<forall>k. 0 \<le> k \<and> k < e - sd \<longrightarrow> sfx ! nat k = p ! nat (sd + k)"
    and inv: "sfx_inv b sd e i s" and i: "0 \<le> i" "i < int (length p)" and nsl: "p ! nat i \<noteq> CHR ''/''"
  shows "sfx_inv b sd e (i - 1)
      (let s1 = (if firstNonSlashEnd s = - 1
                 then s\<lparr>bn_matchedSlash := False, firstNonSlashEnd := i + 1\<rparr> else s)
       in (if 0 \<le> extIdx s1 then
             (if p ! nat i = sfx ! nat (extIdx s1) then
                (if extIdx s1 - 1 = - 1 then s1\<lparr>extIdx := extIdx s1 - 1, bn_end := i\<rparr>
                 else s1\<lparr>extIdx := extIdx s1 - 1\<rparr>)
              else s1\<lparr>extIdx := - 1, bn_end := firstNonSlashEnd s1\<rparr>)
           else s1))"
proof -
  note bd = component_bounds[OF c]
  show ?thesis
  proof (cases "firstNonSlashEnd s = - 1")
    case True
    then have f: "bn_start s = 0" "e - 1 \<le> i" "extIdx s = e - sd - 1" "bn_end s = - 1"
      using inv by (auto simp: sfx_inv_def)
    have "b \<le> i \<and> i < e"
      using c i nsl by (rule nonslash_position) (use bd f(2) in simp)
    then have ie: "i = e - 1" using f(2) by simp
    have "sfx ! nat (e - sd - 1) = p ! nat (sd + (e - sd - 1))"
      using sd sfx by simp
    then have eq: "p ! nat i = sfx ! nat (e - sd - 1)" using ie by simp
    show ?thesis
      using True f ie eq sd bd by (auto simp: sfx_inv_def Let_def)
  next
    case False
    then have f: "bn_start s = 0" "\<not> bn_matchedSlash s" "firstNonSlashEnd s = e" "b - 1 \<le> i" "i < e - 1"
      "sd \<le> i \<longrightarrow> extIdx s = i - sd \<and> bn_end s = - 1" "i < sd \<longrightarrow> extIdx s = - 1 \<and> bn_end s = sd"
      using inv by (auto simp: sfx_inv_def)
    have r: "b \<le> i \<and> i < e" using c i nsl f(4) by (rule nonslash_position)
    show ?thesis
    proof (cases "sd \<le> i")
      case True
      then have x: "extIdx s = i - sd" "bn_end s = - 1" using f(6) by auto
      have "sfx ! nat (i - sd) = p ! nat (sd + (i - sd))"
        using True f(5) sfx by simp
      then have eq: "p ! nat i = sfx ! nat (i - sd)" by simp
      show ?thesis
        using False f(1-5) x True eq r bd sd by (auto simp: sfx_inv_def Let_def)
    next
      case False
      then have x: "extIdx s = - 1" "bn_end s = sd" using f(7) by auto
      show ?thesis
        using \<open>firstNonSlashEnd s \<noteq> - 1\<close> f(1-5) x False r bd sd by (auto simp: sfx_inv_def Let_def)
    qed
  qed
qed

lemma basename_suffix_loop_final:
  "component p b e \<Longrightarrow> b < sd \<Longrightarrow> sd < e \<Longrightarrow>
   \<forall>k. 0 \<le> k \<and> k < e - sd \<longrightarrow> sfx ! nat k = p ! nat (sd + k) \<Longrightarrow>
   sfx_inv b sd e i s \<Longrightarrow> - 1 \<le> i \<Longrightarrow> i < int (length p) \<Longrightarrow>
   bn_start (basename_suffix_loop p sfx i s) = b \<and>
   bn_end (basename_suffix_loop p sfx i s) = sd \<and>
   firstNonSlashEnd (basename_suffix_loop p sfx i s) = e"
proof (induction p sfx i s rule: basename_suffix_loop.induct)
  case (1 p sfx i s)
  note c = 1(3) and sd = 1(4,5) and inv = 1(7) and bd = component_bounds[OF 1(3)]
  show ?case
  proof (cases "0 \<le> i")
    case False
    with 1(8) have i: "i = - 1" by simp
    have "basename_suffix_loop p sfx i s = s"
      using False by (simp add: basename_suffix_loop.simps[of p sfx i s])
    then show ?thesis using inv i bd sd by (auto simp: sfx_inv_def)
  next
    case i0: True
    show ?thesis
    proof (cases "p ! nat i = CHR ''/''")
      case sl: True
      show ?thesis
      proof (cases "bn_matchedSlash s")
        case True
        then have f: "e - 1 \<le> i" "firstNonSlashEnd s = - 1" using inv by (auto simp: sfx_inv_def)
        have "i = b - 1 \<or> e \<le> i"
          using c i0 1(9) sl by (rule slash_position) (use bd f(1) in simp)
        then have "sfx_inv b sd e (i - 1) s" using inv True bd f by (auto simp: sfx_inv_def)
        then show ?thesis
          using 1(1)[OF i0 sl _ c sd 1(6)] True i0 sl 1(9)
          by (simp add: basename_suffix_loop.simps[of p sfx i s])
      next
        case False
        then have f: "firstNonSlashEnd s = e" "b - 1 \<le> i" "i < e - 1"
          "i < sd \<longrightarrow> extIdx s = - 1 \<and> bn_end s = sd"
          using inv by (auto simp: sfx_inv_def)
        have "i = b - 1 \<or> e \<le> i" using c i0 1(9) sl f(2) by (rule slash_position)
        then have "i + 1 = b" using f by simp
        then show ?thesis
          using False i0 sl f sd by (simp add: basename_suffix_loop.simps[of p sfx i s])
      qed
    next
      case nsl: False
      show ?thesis
        using 1(2)[OF i0 nsl refl refl c sd 1(6)] sfx_step[OF c sd 1(6) inv i0 1(9) nsl] i0 nsl 1(9)
        by (simp add: basename_suffix_loop.simps[of p sfx i s] Let_def)
    qed
  qed
qed

lemma basename_plain:
  assumes "component p b e"
  shows "basename p [] = slice p b e"
proof -
  let ?s0 = "\<lparr>bn_start = 0, bn_end = - 1, bn_matchedSlash = True,
              extIdx = int (length ([] :: string)) - 1, firstNonSlashEnd = - 1\<rparr>"
  note bd = component_bounds[OF assms]
  have "base_inv b e (int (length p) - 1) ?s0" using bd by (simp add: base_inv_def)
  then have "bn_start (basename_loop p (int (length p) - 1) ?s0) = b \<and>
             bn_end (basename_loop p (int (length p) - 1) ?s0) = e"
    by (rule basename_loop_final[OF assms]) simp_all
  then show ?thesis using bd by (simp add: basename_def Let_def)
qed

lemma basename_with_extension:
  assumes c: "component p b e" and sd: "b < sd" "sd < e"
  shows "basename p (slice p sd e) = slice p b sd"
proof -
  let ?sfx = "slice p sd e"
  let ?s0 = "\<lparr>bn_start = 0, bn_end = - 1, bn_matchedSlash = True,
              extIdx = int (length ?sfx) - 1, firstNonSlashEnd = - 1\<rparr>"
  note bd = component_bounds[OF c]
  have len: "length ?sfx = nat (e - sd)" using bd sd by (simp add: length_slice)
  have nth: "\<forall>k. 0 \<le> k \<and> k < e - sd \<longrightarrow> ?sfx ! nat k = p ! nat (sd + k)"
    using bd sd by (simp add: nth_slice)
  have "sfx_inv b sd e (int (length p) - 1) ?s0" using bd sd len by (simp add: sfx_inv_def)
  then have fin: "bn_start (basename_suffix_loop p ?sfx (int (length p) - 1) ?s0) = b \<and>
             bn_end (basename_suffix_loop p ?sfx (int (length p) - 1) ?s0) = sd \<and>
             firstNonSlashEnd (basename_suffix_loop p ?sfx (int (length p) - 1) ?s0) = e"
    by (rule basename_suffix_loop_final[OF c sd nth]) simp_all
  have "0 < nat (e - sd)" "nat (e - sd) \<le> length p" "nat (e - sd) \<noteq> length p"
    using bd sd by linarith+
  then have "0 < length ?sfx" "length ?sfx \<le> length p" "length ?sfx \<noteq> length p"
    using len by simp_all
  then have "0 < length ?sfx \<and> length ?sfx \<le> length p" "?sfx \<noteq> p" by auto
  then show ?thesis using fin sd bd by (simp add: basename_def Let_def)
qed

lemma basename_extname: "basename p (extname p) @ extname p = basename p []"
proof -
  consider "extname p = []"
    | b sd e where "component p b e" "b < sd" "sd < e" "extname p = slice p sd e"
    using extname_cases[of p] by blast
  then show ?thesis
  proof cases
    case 1
    then show ?thesis by simp
  next
    case 2
    note bd = component_bounds[OF 2(1)]
    have "slice p b sd @ slice p sd e = slice p b e"
      using bd 2(2,3) by (intro slice_append) simp_all
    then show ?thesis
      using basename_plain[OF 2(1)] basename_with_extension[OF 2(1-3)] 2(4) by simp
  qed
qed

section \<open>\<open>getFileChangesInDirectory\<close> without the batches\<close>

lemma rethrow_Inr [simp]: "rethrow msg (log, Inr v) = (log, Inr v)"
  by (simp add: rethrow_def)

lemma rethrow_Inl [simp]: "rethrow msg (log, Inl e) = (log, Inl (Error (msg @ error_message e)))"
  by (simp add: rethrow_def)

lemma concat_make_batches: "concat (make_batches i xs) = drop i xs"
proof (induction i xs rule: make_batches.induct)
  case (1 i xs)
  show ?case
  proof (cases "i < length xs")
    case True
    have "take maxConcurrentDiffs (drop i xs) @ drop (i + maxConcurrentDiffs) xs
            = take maxConcurrentDiffs (drop i xs) @ drop maxConcurrentDiffs (drop i xs)"
      by (simp add: add.commute)
    also have "\<dots> = drop i xs" by (rule append_take_drop_id)
    finally show ?thesis using 1[OF True] True
      by (simp add: make_batches.simps[of i xs])
  next
    case False
    then show ?thesis by (simp add: make_batches.simps[of i xs])
  qed
qed

lemma fetched_append: "fetched git (xs @ ys) = fetched git xs @ fetched git ys"
  by (simp add: fetched_def)

lemma warned_append: "warned git (xs @ ys) = warned git xs @ warned git ys"
  by (simp add: warned_def)

lemma warned_Cons: "warned git (x # xs) = warned git [x] @ warned git xs"
  by (simp add: warned_def)

text \<open>The order in which the requests settle permutes the warnings and nothing else.\<close>

lemma mset_warned_insort:
  "mset (warned git (insort_key k x xs)) = mset (warned git [x]) + mset (warned git xs)"
proof (induction xs)
  case Nil
  then show ?case by (simp add: warned_def)
next
  case (Cons y ys)
  show ?case
  proof (cases "k x \<le> k y")
    case True
    then show ?thesis by (simp add: warned_Cons[of git x "y # ys"])
  next
    case False
    then have "mset (warned git (insort_key k x (y # ys)))
                 = mset (warned git [y]) + mset (warned git (insort_key k x ys))"
      by (simp add: warned_Cons[of git y "insort_key k x ys"])
    also have "\<dots> = mset (warned git [y]) + (mset (warned git [x]) + mset (warned git ys))"
      by (simp only: Cons.IH)
    also have "\<dots> = mset (warned git [x]) + mset (warned git (y # ys))"
      by (simp add: warned_Cons[of git y ys])
    finally show ?thesis .
  qed
qed

lemma mset_warned_sort: "mset (warned git (sort_key k xs)) = mset (warned git xs)"
proof (induction xs)
  case Nil
  then show ?case by simp
next
  case (Cons x xs)
  have "mset (warned git (sort_key k (x # xs))) = mset (warned git [x]) + mset (warned git (sort_key k xs))"
    by (simp add: mset_warned_insort)
  then show ?case by (simp add: Cons.IH warned_Cons[of git x xs])
qed

lemma process_batch_eq:
  "process_batch git b =
     (warned git (sort_key (\<lambda>f. diff_settles git (gs_file f)) b), fetched git b)"
proof -
  have w: "concat (map (\<lambda>f. fst (fetch_diff git f)) xs) = warned git xs" for xs
    by (induction xs) (auto simp: warned_def fetch_diff_def split: sum.splits)
  have f: "concat (map ((\<lambda>r. case snd r of None \<Rightarrow> [] | Some d \<Rightarrow> [d]) \<circ> fetch_diff git) xs)
             = fetched git xs" for xs
    by (induction xs) (auto simp: fetched_def fetch_diff_def split: sum.splits)
  show ?thesis by (simp add: process_batch_def Let_def w f)
qed

lemma process_batches_eq:
  "\<exists>log'. process_batches git bs (log, diffs) = (log @ log', diffs @ fetched git (concat bs)) \<and>
          mset log' = mset (warned git (concat bs))"
proof (induction bs arbitrary: log diffs)
  case Nil
  then show ?case by (simp add: fetched_def warned_def)
next
  case (Cons b bs)
  let ?w = "warned git (sort_key (\<lambda>f. diff_settles git (gs_file f)) b)"
  obtain log'' where l: "process_batches git bs (log @ ?w, diffs @ fetched git b)
        = ((log @ ?w) @ log'', (diffs @ fetched git b) @ fetched git (concat bs))"
      "mset log'' = mset (warned git (concat bs))"
    using Cons.IH[of "log @ ?w" "diffs @ fetched git b"] by blast
  have "process_batches git (b # bs) (log, diffs)
          = (log @ (?w @ log''), diffs @ fetched git (concat (b # bs)))"
    using l(1) by (simp add: process_batch_eq fetched_append)
  moreover have "mset (?w @ log'') = mset (warned git (concat (b # bs)))"
    using l(2) by (simp add: mset_warned_sort warned_append)
  ultimately show ?case by blast
qed

lemma mset_insert_by: "mset (insert_by cmp x ys) = add_mset x (mset ys)"
  by (induction ys) auto

lemma mset_js_sort: "mset (js_sort cmp xs) = mset xs"
  by (induction xs) (auto simp: js_sort_def mset_insert_by)

lemma set_js_sort: "set (js_sort cmp xs) = set xs"
  using mset_js_sort[of cmp xs] by (metis set_mset_mset)

text \<open>What the collection returns on a repository: the stable sort, on the comparator of
  the program, of the entries fetched for the files that were not excluded.\<close>

lemma getFileChanges_eq:
  assumes "simpleGit w rootDir = Inr git" "checkIsRepo git = Inr True" "diffSummary git = Inr files"
  shows "\<exists>log. getFileChangesInDirectory w rootDir pats =
           (log, Inr (js_sort (\<lambda>a b. js_minus (to_number (changes b)) (to_number (changes a)))
                        (fetched git (kept_files pats files)))) \<and>
           mset log = mset (warned git (kept_files pats files))"
proof -
  let ?kept = "kept_files pats files"
  obtain log' where l: "process_batches git (make_batches 0 ?kept) ([], [])
        = ([] @ log', [] @ fetched git (concat (make_batches 0 ?kept)))"
      "mset log' = mset (warned git (concat (make_batches 0 ?kept)))"
    using process_batches_eq[of git "make_batches 0 ?kept" "[]" "[]"] by blast
  have "getFileChangesInDirectory w rootDir pats =
           (log', Inr (js_sort (\<lambda>a b. js_minus (to_number (changes b)) (to_number (changes a)))
                        (fetched git ?kept)))"
    using assms l(1)
    by (simp add: getFileChangesInDirectory_def Let_def concat_make_batches kept_files_def)
  moreover have "mset log' = mset (warned git ?kept)"
    using l(2) by (simp add: concat_make_batches)
  ultimately show ?thesis by blast
qed

text \<open>When every entry has a count, no comparison is \<open>NaN\<close> and the sort is the stable
  sort in descending order of the counts.\<close>

lemma insert_by_counted:
  assumes "changes x \<noteq> None" "\<forall>y \<in> set ys. changes y \<noteq> None"
  shows "insert_by (\<lambda>a b. js_minus (to_number (changes b)) (to_number (changes a))) x ys
           = insort_key (\<lambda>d. - the (changes d)) x ys"
  using assms by (induction ys) (auto simp: sort_compare_def to_number_def)

lemma js_sort_counted:
  "\<forall>d \<in> set xs. changes d \<noteq> None \<Longrightarrow>
   js_sort (\<lambda>a b. js_minus (to_number (changes b)) (to_number (changes a))) xs
     = sort_key (\<lambda>d. - the (changes d)) xs"
proof (induction xs)
  case Nil
  then show ?case by (simp add: js_sort_def)
next
  case (Cons x xs)
  let ?cmp = "\<lambda>a b. js_minus (to_number (changes b)) (to_number (changes a))"
  have "js_sort ?cmp (x # xs) = insert_by ?cmp x (js_sort ?cmp xs)"
    by (simp add: js_sort_def)
  also have "\<dots> = insert_by ?cmp x (sort_key (\<lambda>d. - the (changes d)) xs)"
    using Cons by simp
  also have "\<dots> = insort_key (\<lambda>d. - the (changes d)) x (sort_key (\<lambda>d. - the (changes d)) xs)"
    using Cons.prems by (intro insert_by_counted) simp_all
  finally show ?case by simp
qed

lemma sorted_desc:
  "sorted (map (\<lambda>d. - the (changes d)) xs) \<Longrightarrow>
   sorted_wrt (\<lambda>a b. the (changes b) \<le> the (changes a)) xs"
  by (induction xs) auto

lemma fetched_file:
  "d \<in> set (fetched git files) \<Longrightarrow> \<exists>f \<in> set files. file d = gs_file f \<and> changes d = gs_changes f"
  by (auto simp: fetched_def split: sum.splits)

lemma filter_fetched:
  "filter (\<lambda>d. changes d = k) (fetched git files) = fetched git (filter (\<lambda>f. gs_changes f = k) files)"
  by (induction files) (auto simp: fetched_def split: sum.splits)

lemma fetched_iff:
  "d \<in> set (fetched git files) \<longleftrightarrow>
     (\<exists>f \<in> set files. \<exists>t. git_diff git [''--'', gs_file f] = Inr t \<and>
        d = \<lparr>file = gs_file f, diff = t, changes = gs_changes f\<rparr>)"
  by (induction files) (auto simp: fetched_def split: sum.splits)

lemma warned_iff:
  "x \<in> set (warned git files) \<longleftrightarrow>
     (\<exists>f \<in> set files. \<exists>e. git_diff git [''--'', gs_file f] = Inl e \<and>
        x = ConsoleWarn (''Failed to get diff for file '' @ gs_file f @ '':'') e)"
  by (induction files) (auto simp: warned_def split: sum.splits)

section \<open>The commit type\<close>

text \<open>
  C4.  Whatever the list of changes, also one with paths such as \<open>foo.test.ts\<close> or
  \<open>bar.spec.js\<close>, \<open>detectCommitType\<close> does not return \<open>test\<close>: the test looks for
  \<open>.test.\<close> or \<open>.spec.\<close> in what \<open>path.extname\<close> returns, which has one dot at most.
\<close>

theorem detectCommitType_never_test: "detectCommitType chs \<noteq> ''test''"
  by (simp add: detectCommitType_def Let_def extname_no_test_marker)

theorem detectCommitType_never_test_witness:
  "detectCommitType [\<lparr>file = ''foo.test.ts'', diff = [], changes = Some 1\<rparr>,
                     \<lparr>file = ''bar.spec.js'', diff = [], changes = Some 1\<rparr>] \<noteq> ''test''"
  by (rule detectCommitType_never_test)

text \<open>
  C1.  The scenario of the specification, \<open>src/auth.ts\<close> and \<open>README.md\<close> with no
  \<open>commitType\<close> and the scope \<open>authentication\<close>: \<open>detectCommitType\<close> finds \<open>docs\<close>, and
  the message \<open>generateCommitMessage\<close> returns starts with \<open>feat\<close> all the same.  The
  parameter default \<open>commitType = "feat"\<close> makes \<open>commitType || detectedType\<close> take its
  left side always.
\<close>

theorem generateCommitMessage_scenario_is_feat:
  "generateCommitMessage spec_scenario None (Some ''authentication'')
     = ([], Inr ''feat(authentication): update auth with 2 files changed'') \<and>
   detectCommitType (map to_FileDiff spec_scenario) = ''docs''"
  by code_simp

text \<open>With no \<open>commitType\<close>, the message of a non-empty list of changes always starts with
  \<open>feat\<close>, whatever the paths are.\<close>

lemma generateCommitMessage_default_feat:
  "chs \<noteq> [] \<Longrightarrow> \<exists>m. generateCommitMessage chs None scope = ([], Inr m) \<and> prefix ''feat'' m"
  by (auto simp: generateCommitMessage_def Let_def maxCommitMessageLength_def substring_0
      composedCommitMessage_def)

text \<open>A \<open>commitType\<close> that is given is the type of the message.\<close>

lemma generateCommitMessage_explicit_type:
  "chs \<noteq> [] \<Longrightarrow>
   \<exists>m. generateCommitMessage chs (Some t) scope = ([], Inr m) \<and> prefix (commitType_string t) m"
  by (cases t)
     (auto simp: generateCommitMessage_def Let_def maxCommitMessageLength_def substring_0
        composedCommitMessage_def)

section \<open>The commit message\<close>

text \<open>
  C10.  With an empty list of changes \<open>generateCommitMessage\<close> returns the sentinel
  \<open>chore: no changes detected\<close>, whatever \<open>commitType\<close> and \<open>scope\<close> are, and does nothing
  else.
\<close>

theorem generateCommitMessage_empty:
  "generateCommitMessage [] commitTypeArg scope = ([], Inr ''chore: no changes detected'')"
  by (simp add: generateCommitMessage_def)

text \<open>
  C5.  \<open>generateCommitMessage\<close> always returns a message, of 72 characters at most.  When
  the composed message is longer than 72 characters, the message returned is its first 69
  characters followed by \<open>...\<close>, 72 characters in all; otherwise it is the composed
  message.
\<close>

theorem generateCommitMessage_length:
  "\<exists>m. generateCommitMessage chs commitTypeArg scope = ([], Inr m) \<and>
       length m \<le> 72 \<and>
       (chs \<noteq> [] \<and> length (composedCommitMessage chs commitTypeArg scope) > 72 \<longrightarrow>
          endsWith m ''...'' \<and> length m = 72 \<and>
          m = take 69 (composedCommitMessage chs commitTypeArg scope) @ ''...'') \<and>
       (chs \<noteq> [] \<and> length (composedCommitMessage chs commitTypeArg scope) \<le> 72 \<longrightarrow>
          m = composedCommitMessage chs commitTypeArg scope)"
  by (cases "chs = []")
     (auto simp: generateCommitMessage_def Let_def maxCommitMessageLength_def substring_0
        endsWith_def suffix_def)

theorem generateCommitMessage_length_witness:
  "\<exists>m. generateCommitMessage spec_scenario None (Some long_scope) = ([], Inr m) \<and>
       length m = 72 \<and> endsWith m ''...''"
proof -
  have h: "spec_scenario \<noteq> [] \<and>
           72 < length (composedCommitMessage spec_scenario None (Some long_scope))"
    by code_simp
  from generateCommitMessage_length[of spec_scenario None "Some long_scope"] h
  show ?thesis by blast
qed

lemma find_filter_conv:
  "find P xs = (case filter P xs of [] \<Rightarrow> None | x # _ \<Rightarrow> Some x)"
  by (induction xs) auto

text \<open>
  C7.  For a non-empty list of changes, \<open>generateMessageBody\<close> looks for the first change
  whose path contains none of \<open>test\<close>, \<open>spec\<close> and \<open>README\<close>.  When there is none the
  body is \<open>update documentation and tests\<close>.  Otherwise the body names the base name of
  that path without its extension, and the number of all the changes given, with
  \<open>file\<close> in the singular for one change.  The name is the base name without the
  extension: with the extension appended again it is the base name of the path.
\<close>

theorem generateMessageBody_spec:
  "chs \<noteq> [] \<Longrightarrow>
   generateMessageBody chs =
     (case find (\<lambda>change. \<not> js_includes (file change) ''test'' \<and>
                          \<not> js_includes (file change) ''spec'' \<and>
                          \<not> js_includes (file change) ''README'') chs of
        None \<Rightarrow> ''update documentation and tests''
      | Some primaryFile \<Rightarrow>
          ''update '' @ basename (file primaryFile) (extname (file primaryFile)) @ '' with ''
            @ string_of_nat (length chs)
            @ (if length chs = 1 then '' file changed'' else '' files changed'')) \<and>
   (\<forall>change \<in> set chs.
      basename (file change) (extname (file change)) @ extname (file change)
        = basename (file change) [])"
proof -
  assume ne: "chs \<noteq> []"
  let ?P = "\<lambda>change. \<not> js_includes (file change) ''test'' \<and>
                     \<not> js_includes (file change) ''spec'' \<and>
                     \<not> js_includes (file change) ''README''"
  have len: "length chs > 1 \<longleftrightarrow> length chs \<noteq> 1" using ne by (cases chs) auto
  have "generateMessageBody chs =
     (case filter ?P chs of
        [] \<Rightarrow> ''update documentation and tests''
      | primaryFile # _ \<Rightarrow>
          ''update '' @ basename (file primaryFile) (extname (file primaryFile)) @ '' with ''
            @ string_of_nat (length chs)
            @ (if length chs = 1 then '' file changed'' else '' files changed''))"
    using len by (simp add: generateMessageBody_def Let_def split: list.splits)
  then show ?thesis
    by (simp add: find_filter_conv basename_extname split: list.splits)
qed

theorem generateMessageBody_spec_witness:
  "generateMessageBody scenario_diffs = ''update auth with 2 files changed''"
proof -
  have ne: "scenario_diffs \<noteq> []" by (simp add: scenario_diffs_def)
  have "generateMessageBody scenario_diffs =
     (case find (\<lambda>change. \<not> js_includes (file change) ''test'' \<and>
                          \<not> js_includes (file change) ''spec'' \<and>
                          \<not> js_includes (file change) ''README'') scenario_diffs of
        None \<Rightarrow> ''update documentation and tests''
      | Some primaryFile \<Rightarrow>
          ''update '' @ basename (file primaryFile) (extname (file primaryFile)) @ '' with ''
            @ string_of_nat (length scenario_diffs)
            @ (if length scenario_diffs = 1 then '' file changed'' else '' files changed''))"
    by (rule generateMessageBody_spec[OF ne, THEN conjunct1])
  also have "\<dots> = ''update auth with 2 files changed''"
    by code_simp
  finally show ?thesis .
qed

section \<open>The suggestions\<close>

text \<open>
  C8.  The list of suggestions is never empty, and it is made of the TypeScript
  suggestion, the test suggestion and the more-than-5-files suggestion, in this order,
  each present exactly when its own rule holds, followed by the fallback exactly when
  none of the three rules holds.
\<close>

theorem generateSuggestions_rules:
  "generateSuggestions chs \<noteq> [] \<and>
   generateSuggestions chs =
     (if \<exists>change \<in> set chs. endsWith (file change) ''.ts'' \<or> endsWith (file change) ''.tsx''
      then [''Consider adding TypeScript type annotations if missing''] else [])
     @ (if \<exists>change \<in> set chs. js_includes (file change) ''test'' \<or> js_includes (file change) ''spec''
        then [''Verify test coverage for the implemented changes''] else [])
     @ (if length chs > 5
        then [''Consider breaking this into smaller, focused commits''] else [])
     @ (if (\<exists>change \<in> set chs. endsWith (file change) ''.ts'' \<or> endsWith (file change) ''.tsx'')
           \<or> (\<exists>change \<in> set chs. js_includes (file change) ''test'' \<or> js_includes (file change) ''spec'')
           \<or> length chs > 5
        then [] else [''Changes look good. Consider adding comments for complex logic''])"
  by (simp add: generateSuggestions_def Let_def)

section \<open>The collection of the changes\<close>

text \<open>Whatever git reports, no path of the result contains or starts with a pattern of
  the built-in set or of the patterns given.\<close>

lemma getFileChanges_excluded:
  assumes "simpleGit w rootDir = Inr git" "checkIsRepo git = Inr True" "diffSummary git = Inr files"
  shows "\<exists>log ds. getFileChangesInDirectory w rootDir pats = (log, Inr ds) \<and>
     (\<forall>d \<in> set ds. \<forall>pat \<in> EXCLUDED_FILES \<union> set pats.
         \<not> js_includes (file d) pat \<and> \<not> startsWith (file d) pat)"
proof -
  let ?ds = "js_sort (\<lambda>a b. js_minus (to_number (changes b)) (to_number (changes a)))
               (fetched git (kept_files pats files))"
  have "\<forall>d \<in> set ?ds. \<forall>pat \<in> EXCLUDED_FILES \<union> set pats.
         \<not> js_includes (file d) pat \<and> \<not> startsWith (file d) pat"
  proof
    fix d
    assume "d \<in> set ?ds"
    then have "d \<in> set (fetched git (kept_files pats files))" by (simp add: set_js_sort)
    then obtain f where f: "f \<in> set (kept_files pats files)" "file d = gs_file f"
      using fetched_file by blast
    then have "\<not> shouldExcludeFile (file d) (set pats)" by (simp add: kept_files_def)
    then show "\<forall>pat \<in> EXCLUDED_FILES \<union> set pats.
        \<not> js_includes (file d) pat \<and> \<not> startsWith (file d) pat"
      by (simp add: shouldExcludeFile_def Let_def)
  qed
  then show ?thesis using getFileChanges_eq[OF assms, of pats] by blast
qed

lemma filter_count_key:
  "filter (\<lambda>d. changes d = Some k) (filter (\<lambda>d. - the (changes d) = - k) xs)
     = filter (\<lambda>d. changes d = Some k) xs"
  by (induction xs) auto

text \<open>When git reports a count for every file, the result is in descending order of the
  counts, and the entries of one count are, in the order git reported their files, those
  fetched for the reported files of that count that were not excluded.\<close>

lemma getFileChanges_sorted_when_counted:
  assumes "simpleGit w rootDir = Inr git" "checkIsRepo git = Inr True" "diffSummary git = Inr files"
    and counted: "\<forall>f \<in> set files. gs_changes f \<noteq> None"
  shows "\<exists>log ds. getFileChangesInDirectory w rootDir pats = (log, Inr ds) \<and>
     sorted_wrt (\<lambda>a b. the (changes b) \<le> the (changes a)) ds \<and>
     (\<forall>k. filter (\<lambda>d. changes d = Some k) ds =
           fetched git (filter (\<lambda>f. gs_changes f = Some k) (kept_files pats files)))"
proof -
  let ?xs = "fetched git (kept_files pats files)"
  let ?ds = "sort_key (\<lambda>d. - the (changes d)) ?xs"
  have c: "\<forall>d \<in> set ?xs. changes d \<noteq> None"
  proof
    fix d
    assume "d \<in> set ?xs"
    then obtain f where "f \<in> set (kept_files pats files)" "changes d = gs_changes f"
      using fetched_file by blast
    then show "changes d \<noteq> None" using counted by (simp add: kept_files_def)
  qed
  have eq: "js_sort (\<lambda>a b. js_minus (to_number (changes b)) (to_number (changes a))) ?xs = ?ds"
    using c by (rule js_sort_counted)
  have 2: "sorted_wrt (\<lambda>a b. the (changes b) \<le> the (changes a)) ?ds"
    by (rule sorted_desc) (rule sorted_sort_key)
  have 3: "filter (\<lambda>d. changes d = Some k) ?ds =
           fetched git (filter (\<lambda>f. gs_changes f = Some k) (kept_files pats files))" for k
  proof -
    have s: "filter (\<lambda>d. - the (changes d) = - k) ?ds = filter (\<lambda>d. - the (changes d) = - k) ?xs"
      by (rule sort_key_stable)
    have "filter (\<lambda>d. changes d = Some k) ?ds
            = filter (\<lambda>d. changes d = Some k) (filter (\<lambda>d. - the (changes d) = - k) ?ds)"
      by (simp only: filter_count_key)
    also have "\<dots> = filter (\<lambda>d. changes d = Some k) (filter (\<lambda>d. - the (changes d) = - k) ?xs)"
      by (simp only: s)
    also have "\<dots> = filter (\<lambda>d. changes d = Some k) ?xs"
      by (simp only: filter_count_key)
    finally show ?thesis by (simp add: filter_fetched)
  qed
  show ?thesis using getFileChanges_eq[OF assms(1-3), of pats] eq 2 3 by auto
qed

text \<open>
  C6.  A repository in which git reports \<open>a.txt\<close> with 1 change, two binary files, which
  have no count, and \<open>z.txt\<close> with 50 changes: every comparison with a binary file is
  \<open>NaN\<close>, the sort leaves the files in the reported order, and the result has \<open>a.txt\<close>
  with 1 change before \<open>z.txt\<close> with 50.
\<close>

theorem getFileChanges_binary_files_unsorted:
  "getFileChangesInDirectory binary_world ''/repo'' [] =
     ([], Inr [\<lparr>file = ''a.txt'', diff = ''diff of --a.txt'', changes = Some 1\<rparr>,
               \<lparr>file = ''logo.png'', diff = ''diff of --logo.png'', changes = None\<rparr>,
               \<lparr>file = ''photo.png'', diff = ''diff of --photo.png'', changes = None\<rparr>,
               \<lparr>file = ''z.txt'', diff = ''diff of --z.txt'', changes = Some 50\<rparr>])"
  by code_simp

text \<open>The summary of these four entries has no total: a sum with \<open>undefined\<close> is \<open>NaN\<close>.\<close>

lemma generateReviewSummary_binary_files:
  "generateReviewSummary
     [\<lparr>file = ''a.txt'', diff = ''diff of --a.txt'', changes = Some 1\<rparr>,
      \<lparr>file = ''logo.png'', diff = ''diff of --logo.png'', changes = None\<rparr>,
      \<lparr>file = ''photo.png'', diff = ''diff of --photo.png'', changes = None\<rparr>,
      \<lparr>file = ''z.txt'', diff = ''diff of --z.txt'', changes = Some 50\<rparr>]
   = ''Reviewed 4 files with NaN total changes. File types: .txt, .png''"
  by code_simp

text \<open>The result in the world of the five files, with no pattern given: \<open>bun.lock\<close> is excluded,
  \<open>src/gone.ts\<close> is dropped with a warning, and \<open>README.md\<close> stays before
  \<open>src/util.ts\<close>, which has the same count.\<close>

lemma demo_changes:
  "getFileChangesInDirectory (demo_world j) ''/repo'' [] =
     ([ConsoleWarn ''Failed to get diff for file src/gone.ts:'' (Error ''fatal: bad object'')],
      Inr [\<lparr>file = ''src/auth.ts'', diff = ''diff of --src/auth.ts'', changes = Some 40\<rparr>,
           \<lparr>file = ''README.md'', diff = ''diff of --README.md'', changes = Some 2\<rparr>,
           \<lparr>file = ''src/util.ts'', diff = ''diff of --src/util.ts'', changes = Some 2\<rparr>])"
  by code_simp

text \<open>
  C9.  When the directory is a repository and git reports the list \<open>files\<close>, the collection
  succeeds whatever git answers to the requests for the diffs.  A file that is not
  excluded and whose diff fails is not in the result and has its warning in the log; one
  whose diff is returned has its entry in the result.  The result holds the fetched
  entries and nothing else, and the log the warnings and nothing else, in the order in
  which the requests failed.
\<close>

theorem getFileChanges_tolerates_diff_failure:
  assumes "simpleGit w rootDir = Inr git" "checkIsRepo git = Inr True" "diffSummary git = Inr files"
  shows "\<exists>log ds. getFileChangesInDirectory w rootDir pats = (log, Inr ds) \<and>
     mset ds = mset (fetched git (kept_files pats files)) \<and>
     mset log = mset (warned git (kept_files pats files)) \<and>
     (\<forall>f \<in> set (kept_files pats files).
        case git_diff git [''--'', gs_file f] of
          Inl e \<Rightarrow> gs_file f \<notin> file ` set ds \<and>
                   ConsoleWarn (''Failed to get diff for file '' @ gs_file f @ '':'') e \<in> set log
        | Inr t \<Rightarrow> \<lparr>file = gs_file f, diff = t, changes = gs_changes f\<rparr> \<in> set ds)"
proof -
  let ?kept = "kept_files pats files"
  let ?ds = "js_sort (\<lambda>a b. js_minus (to_number (changes b)) (to_number (changes a)))
               (fetched git ?kept)"
  obtain log where l: "getFileChangesInDirectory w rootDir pats = (log, Inr ?ds)"
    "mset log = mset (warned git ?kept)"
    using getFileChanges_eq[OF assms, of pats] by blast
  have sl: "set log = set (warned git ?kept)" using l(2) by (rule mset_eq_setD)
  have "case git_diff git [''--'', gs_file f] of
          Inl e \<Rightarrow> gs_file f \<notin> file ` set ?ds \<and>
                   ConsoleWarn (''Failed to get diff for file '' @ gs_file f @ '':'') e \<in> set log
        | Inr t \<Rightarrow> \<lparr>file = gs_file f, diff = t, changes = gs_changes f\<rparr> \<in> set ?ds"
    if f: "f \<in> set ?kept" for f
  proof (cases "git_diff git [''--'', gs_file f]")
    case (Inl e)
    have "gs_file f \<notin> file ` set (fetched git ?kept)"
    proof
      assume "gs_file f \<in> file ` set (fetched git ?kept)"
      then obtain d where d: "d \<in> set (fetched git ?kept)" "file d = gs_file f" by auto
      from d(1) obtain f' :: GitFileStatus and t
        where f': "git_diff git [''--'', gs_file f'] = Inr t"
          "d = \<lparr>file = gs_file f', diff = t, changes = gs_changes f'\<rparr>"
        unfolding fetched_iff by blast
      from f'(2) d(2) have "gs_file f' = gs_file f" by simp
      with f'(1) Inl show False by simp
    qed
    moreover have "ConsoleWarn (''Failed to get diff for file '' @ gs_file f @ '':'') e \<in> set log"
      using f Inl sl by (auto simp: warned_iff)
    ultimately show ?thesis using Inl by (simp add: set_js_sort)
  next
    case (Inr t)
    then have "\<lparr>file = gs_file f, diff = t, changes = gs_changes f\<rparr> \<in> set (fetched git ?kept)"
      using f by (auto simp: fetched_iff)
    then show ?thesis using Inr by (simp add: set_js_sort)
  qed
  moreover have "mset ?ds = mset (fetched git ?kept)" by (rule mset_js_sort)
  ultimately show ?thesis using l by blast
qed

theorem getFileChanges_tolerates_diff_failure_witness:
  "\<exists>log ds. getFileChangesInDirectory (demo_world join_code_reviews) ''/repo'' [] = (log, Inr ds) \<and>
     mset ds = mset (fetched demo_git (kept_files [] demo_files)) \<and>
     mset log = mset (warned demo_git (kept_files [] demo_files)) \<and>
     (\<forall>f \<in> set (kept_files [] demo_files).
        case git_diff demo_git [''--'', gs_file f] of
          Inl e \<Rightarrow> gs_file f \<notin> file ` set ds \<and>
                   ConsoleWarn (''Failed to get diff for file '' @ gs_file f @ '':'') e \<in> set log
        | Inr t \<Rightarrow> \<lparr>file = gs_file f, diff = t, changes = gs_changes f\<rparr> \<in> set ds)"
  by (rule getFileChanges_tolerates_diff_failure) (simp_all add: demo_world_def demo_git_def)

text \<open>Every error of the collection carries the prefix of its \<open>catch\<close> block.\<close>

lemma getFileChanges_errors_wrapped:
  "getFileChangesInDirectory w rootDir pats = (log, Inl e) \<Longrightarrow> collectionFailed e"
  by (auto simp: getFileChangesInDirectory_def Let_def collectionFailed_def startsWith_def
      rethrow_def split: sum.splits if_splits prod.splits)

text \<open>
  C2, as the claim states it, fails: for a directory that is not a repository the error
  is the one of the \<open>catch\<close> block of the collection, like every other failure.
\<close>

theorem not_a_repository_is_collection_failure:
  "simpleGit norepo_world ''/tmp/x'' = Inr norepo_git \<and> checkIsRepo norepo_git = Inr False \<and>
   getFileChangesInDirectory norepo_world ''/tmp/x'' []
     = ([], Inl (Error ''Failed to get file changes: Directory /tmp/x is not a git repository'')) \<and>
   collectionFailed (Error ''Failed to get file changes: Directory /tmp/x is not a git repository'')"
  by (simp add: norepo_world_def norepo_git_def demo_world_def getFileChangesInDirectory_def
      collectionFailed_def startsWith_def error_message_def)

text \<open>
  C2, amended.  For a directory that is not a repository (\<open>checkIsRepo\<close> resolves to
  \<open>false\<close>), the collection throws an \<open>Error\<close> whose message is the prefix of every failed
  collection followed by \<open>Directory\<close>, the directory and \<open>is not a git repository\<close>; no
  diff is asked for and nothing is logged.
\<close>

theorem getFileChanges_not_a_repository:
  assumes "simpleGit w rootDir = Inr git" "checkIsRepo git = Inr False"
  shows "getFileChangesInDirectory w rootDir pats =
           ([], Inl (Error (''Failed to get file changes: '' @
                            ''Directory '' @ rootDir @ '' is not a git repository'')))"
  using assms by (simp add: getFileChangesInDirectory_def Let_def error_message_def)

theorem getFileChanges_not_a_repository_witness:
  "getFileChangesInDirectory norepo_world ''/home/user/notes'' [''docs''] =
     ([], Inl (Error (''Failed to get file changes: '' @
                      ''Directory '' @ ''/home/user/notes'' @ '' is not a git repository'')))"
  by (rule getFileChanges_not_a_repository[of _ _ norepo_git])
     (simp_all add: norepo_world_def norepo_git_def)

section \<open>The review\<close>

text \<open>A report that is written comes back as a sentence that ends with the path of the
  file, and so does the \<open>reportPath\<close> of every review that wrote one.\<close>

lemma writeMarkdownReport_result:
  "writeMarkdownReport w content None None = (log, Inr s) \<Longrightarrow>
   \<exists>fullPath md. s = ''Markdown report saved to: '' @ fullPath \<and> WriteFile fullPath md \<in> set log \<and>
      fullPath = path_join w ''./code-reviews''
                   (''code-review-'' @ takeWhile (\<lambda>c. c \<noteq> CHR ''T'') (toISOString w) @ ''.md'')"
  by (auto simp: writeMarkdownReport_def Let_def rethrow_def split: prod.splits sum.splits option.splits)

lemma generateCommitMessage_no_effect:
  "generateCommitMessage chs ct sc = (log, r) \<Longrightarrow> log = [] \<and> (\<exists>m. r = Inr m)"
  by (auto simp: generateCommitMessage_def Let_def split: if_splits)

lemma performCodeReview_reportPath:
  assumes "performCodeReview w rootDir pats True = (log, Inr r)" "review_changes r \<noteq> []"
  shows "\<exists>fullPath md. reportPath r = Some (''Markdown report saved to: '' @ fullPath) \<and>
           WriteFile fullPath md \<in> set log \<and> reportPath r \<noteq> Some fullPath"
proof -
  obtain log1 chs where c: "getFileChangesInDirectory w rootDir pats = (log1, Inr chs)"
    using assms(1)
    by (cases "getFileChangesInDirectory w rootDir pats")
       (auto simp: performCodeReview_def split: sum.splits)
  have ne: "chs \<noteq> []"
    using assms c by (auto simp: performCodeReview_def)
  let ?cc = "map (\<lambda>change. \<lparr>p_file = file change, p_changes = changes change,
                                      p_diff = Some (diff change)\<rparr>) chs"
  obtain m where m: "generateCommitMessage ?cc None None = ([], Inr m)"
    using generateCommitMessage_no_effect[of ?cc None None]
    by (cases "generateCommitMessage ?cc None None") auto
  let ?content = "reportContent (generateReviewSummary chs) (generateSuggestions chs) m"
  obtain log3 s where w: "writeMarkdownReport w ?content None None = (log3, Inr s)"
    and r: "reportPath r = Some s" and l: "log = log1 @ log3"
    using assms(1) c ne m
    by (cases "writeMarkdownReport w ?content None None")
       (auto simp: performCodeReview_def Let_def split: sum.splits)
  from writeMarkdownReport_result[OF w] r l show ?thesis by auto
qed

lemma demo_world_sel:
  "path_join (demo_world j) = j"
  "path_dirname (demo_world j) = (\<lambda>p. ''code-reviews'')"
  "toISOString (demo_world j) = ''2026-11-02T10:00:00.000Z''"
  "fs_access (demo_world j) = (\<lambda>d. Some (Error ''ENOENT''))"
  "fs_mkdir (demo_world j) = (\<lambda>d. None)"
  "fs_writeFile (demo_world j) = (\<lambda>p c. None)"
  by (simp_all add: demo_world_def)

text \<open>
  C3.  A review with \<open>outputReport = true\<close> in the world of the five files, whatever \<open>path.join\<close>
  returns: the report is written at the path \<open>path.join\<close> returns, and \<open>reportPath\<close> is
  not that path but the sentence \<open>writeMarkdownReport\<close> returns, \<open>Markdown report saved
  to:\<close> followed by the path.
\<close>

theorem performCodeReview_reportPath_is_message:
  "\<exists>r content.
     performCodeReview (demo_world j) ''/repo'' [] True =
       ([ConsoleWarn ''Failed to get diff for file src/gone.ts:'' (Error ''fatal: bad object''),
         Mkdir ''code-reviews'',
         WriteFile (j ''./code-reviews'' ''code-review-2026-11-02.md'') content], Inr r) \<and>
     reportPath r
       = Some (''Markdown report saved to: '' @ j ''./code-reviews'' ''code-review-2026-11-02.md'') \<and>
     reportPath r \<noteq> Some (j ''./code-reviews'' ''code-review-2026-11-02.md'')"
  by (simp add: performCodeReview_def demo_changes generateCommitMessage_def Let_def
      writeMarkdownReport_def ensureDirectoryExists_def demo_world_sel)

end
